theory Spec2Isabelle
  imports Main "HOL-Library.Multiset" "HOL-Library.Word" "HOL-Library.Char_ord"
    "HOL-Library.List_Lexorder"
begin

section \<open>OSV ranges and semver containment (internal/vulncheck/semver.go)\<close>

text \<open>
  The OSV types used by the checker: a range has a type and a slice of events, and an
  event carries an \<open>Introduced\<close> or a \<open>Fixed\<close> version string (Go's zero value, the empty
  string, when the field is absent).
\<close>

datatype AffectsRangeType = TypeUnspecified | TypeSemver

record RangeEvent =
  Introduced :: string
  Fixed :: string

record AffectsRange =
  Type :: AffectsRangeType
  Events :: "RangeEvent list"

text \<open>
  Modelled from the spec: \<open>CanonicalizeSemverPrefix\<close> of package internal/semver, which
  is not among the sources. Section 4.1: versions come prefixed \<open>v\<close>, \<open>go\<close> or bare and
  are brought to a common \<open>v\<close>-prefixed form before they are compared.
\<close>

definition CanonicalizeSemverPrefix :: "string \<Rightarrow> string" where
  "CanonicalizeSemverPrefix s =
     (if take 1 s = ''v'' then s
      else if take 2 s = ''go'' then ''v'' @ drop 2 s
      else ''v'' @ s)"

text \<open>
  \<open>semver.Compare\<close> belongs to the external module golang.org/x/mod; the functions below
  take it as the parameter \<open>cmp\<close> (negative, zero or positive as in Go).

  The comparison closure handed to \<open>sort.SliceStable\<close>, on the two events it reads.
\<close>

definition eventLess :: "(string \<Rightarrow> string \<Rightarrow> int) \<Rightarrow> RangeEvent \<Rightarrow> RangeEvent \<Rightarrow> bool" where
  "eventLess cmp e1 e2 =
     (let v1 = Introduced e1 in
      if v1 = ''0'' then True
      else
        let v1 = (if Fixed e1 \<noteq> '''' then Fixed e1 else v1);
            v2 = Introduced e2 in
        if v2 = ''0'' then False
        else
          let v2 = (if Fixed e2 \<noteq> '''' then Fixed e2 else v2) in
          cmp (CanonicalizeSemverPrefix v1) (CanonicalizeSemverPrefix v2) < 0)"

text \<open>
  \<open>sort.SliceStable\<close> of the Go standard library, as stable insertion: every element in
  turn is swapped towards the front for as long as \<open>less\<close> holds between it and its left
  neighbour. This is the library's own procedure on slices of up to 20 elements, and the
  order every stable sort produces when \<open>less\<close> is a strict weak order. The sorted prefix
  is kept reversed in \<open>moveLeft\<close>, so that its head is the left neighbour.
\<close>

primrec moveLeft :: "('a \<Rightarrow> 'a \<Rightarrow> bool) \<Rightarrow> 'a \<Rightarrow> 'a list \<Rightarrow> 'a list" where
  "moveLeft lt x [] = [x]"
| "moveLeft lt x (y # ys) = (if lt x y then y # moveLeft lt x ys else x # y # ys)"

definition SliceStable :: "('a \<Rightarrow> 'a \<Rightarrow> bool) \<Rightarrow> 'a list \<Rightarrow> 'a list" where
  "SliceStable lt xs = rev (foldl (\<lambda>placed x. moveLeft lt x placed) [] xs)"

text \<open>The body of the loop over the sorted events: one update of \<open>affected\<close>.\<close>

definition walkStep :: "(string \<Rightarrow> string \<Rightarrow> int) \<Rightarrow> string \<Rightarrow> bool \<Rightarrow> RangeEvent \<Rightarrow> bool" where
  "walkStep cmp v affected e =
     (if \<not> affected \<and> Introduced e \<noteq> '''' then
        Introduced e = ''0'' \<or> cmp v (CanonicalizeSemverPrefix (Introduced e)) \<ge> 0
      else if affected \<and> Fixed e \<noteq> '''' then
        cmp v (CanonicalizeSemverPrefix (Fixed e)) < 0
      else affected)"

text \<open>
  \<open>containsSemver\<close>. The range is passed by value, but its \<open>Events\<close> slice shares its
  backing array with the caller's, and the sort works in place: the function returns its
  boolean together with the contents of that array after the call.
\<close>

definition containsSemver ::
  "(string \<Rightarrow> string \<Rightarrow> int) \<Rightarrow> AffectsRange \<Rightarrow> string \<Rightarrow> bool \<times> RangeEvent list" where
  "containsSemver cmp ar v =
     (if Type ar \<noteq> TypeSemver then (False, Events ar)
      else if length (Events ar) = 0 then (True, Events ar)
      else
        let v = CanonicalizeSemverPrefix v;
            evs = SliceStable (eventLess cmp) (Events ar)
        in (foldl (walkStep cmp v) False evs, evs))"

text \<open>
  \<open>affectsSemver\<close>: the loop over the ranges carries \<open>semverRangePresent\<close> and returns as
  soon as one range contains the version. Each range visited has had its events sorted,
  so the ranges come back with the result.
\<close>

fun affectsLoop ::
  "(string \<Rightarrow> string \<Rightarrow> int) \<Rightarrow> AffectsRange list \<Rightarrow> string \<Rightarrow> bool \<Rightarrow> bool \<times> AffectsRange list" where
  "affectsLoop cmp [] v semverRangePresent = (\<not> semverRangePresent, [])"
| "affectsLoop cmp (r # rs) v semverRangePresent =
     (if Type r \<noteq> TypeSemver then
        (let (b, rs') = affectsLoop cmp rs v semverRangePresent in (b, r # rs'))
      else
        (let (c, evs) = containsSemver cmp r v; r' = r\<lparr>Events := evs\<rparr> in
         if c then (True, r' # rs)
         else (let (b, rs') = affectsLoop cmp rs v True in (b, r' # rs'))))"

definition affectsSemver ::
  "(string \<Rightarrow> string \<Rightarrow> int) \<Rightarrow> AffectsRange list \<Rightarrow> string \<Rightarrow> bool \<times> AffectsRange list" where
  "affectsSemver cmp a v =
     (if length a = 0 then (True, a) else affectsLoop cmp a v False)"

subsection \<open>A comparison function for release versions\<close>

text \<open>
  A stand-in for \<open>semver.Compare\<close> on release versions \<open>vMAJOR[.MINOR[.PATCH]]\<close>, used
  where a concrete comparison is needed: numbers without leading zeros, a missing minor or
  patch number read as 0, every other string invalid; an invalid version is below every
  valid one and equal to every invalid one, as the library documents. Pre-release and
  build suffixes are not part of this stand-in.
\<close>

definition isDigit :: "char \<Rightarrow> bool" where
  "isDigit c = (c \<in> set ''0123456789'')"

definition digitVal :: "char \<Rightarrow> nat" where
  "digitVal c = of_char c - 48"

definition parseInt :: "string \<Rightarrow> (nat \<times> string) option" where
  "parseInt s =
     (let ds = takeWhile isDigit s in
      if ds = [] then None
      else if hd ds = CHR ''0'' \<and> length ds \<noteq> 1 then None
      else Some (foldl (\<lambda>n c. 10 * n + digitVal c) 0 ds, dropWhile isDigit s))"

definition parseVersion :: "string \<Rightarrow> (nat \<times> nat \<times> nat) option" where
  "parseVersion v =
     (case v of
        [] \<Rightarrow> None
      | c # r0 \<Rightarrow>
          if c \<noteq> CHR ''v'' then None
          else (case parseInt r0 of
                  None \<Rightarrow> None
                | Some (major, r1) \<Rightarrow>
                    (case r1 of
                       [] \<Rightarrow> Some (major, 0, 0)
                     | d1 # r1' \<Rightarrow>
                         if d1 \<noteq> CHR ''.'' then None
                         else (case parseInt r1' of
                                 None \<Rightarrow> None
                               | Some (minor, r2) \<Rightarrow>
                                   (case r2 of
                                      [] \<Rightarrow> Some (major, minor, 0)
                                    | d2 # r2' \<Rightarrow>
                                        if d2 \<noteq> CHR ''.'' then None
                                        else (case parseInt r2' of
                                                None \<Rightarrow> None
                                              | Some (patch, r3) \<Rightarrow>
                                                  if r3 = [] then Some (major, minor, patch)
                                                  else None))))))"

definition compareInt :: "nat \<Rightarrow> nat \<Rightarrow> int" where
  "compareInt x y = (if x = y then 0 else if x < y then - 1 else 1)"

definition releaseCompare :: "string \<Rightarrow> string \<Rightarrow> int" where
  "releaseCompare v w =
     (case (parseVersion v, parseVersion w) of
        (None, None) \<Rightarrow> 0
      | (None, Some _) \<Rightarrow> - 1
      | (Some _, None) \<Rightarrow> 1
      | (Some (a1, a2, a3), Some (b1, b2, b3)) \<Rightarrow>
          if compareInt a1 b1 \<noteq> 0 then compareInt a1 b1
          else if compareInt a2 b2 \<noteq> 0 then compareInt a2 b2
          else compareInt a3 b3)"

subsection \<open>The order the sort establishes, in the words of the specification\<close>

text \<open>
  An event with \<open>Introduced = "0"\<close> stands for the beginning of time; every other event
  carries a version, the fixed one if there is one and the introduced one otherwise.
\<close>

definition beginningOfTime :: "RangeEvent \<Rightarrow> bool" where
  "beginningOfTime e = (Introduced e = ''0'')"

definition eventVersion :: "RangeEvent \<Rightarrow> string" where
  "eventVersion e =
     CanonicalizeSemverPrefix (if Fixed e \<noteq> '''' then Fixed e else Introduced e)"

definition beginningFirst :: "RangeEvent \<Rightarrow> RangeEvent \<Rightarrow> bool" where
  "beginningFirst a b = (beginningOfTime b \<longrightarrow> beginningOfTime a)"

definition inOrder :: "(string \<Rightarrow> string \<Rightarrow> int) \<Rightarrow> RangeEvent \<Rightarrow> RangeEvent \<Rightarrow> bool" where
  "inOrder cmp a b =
     (beginningOfTime a \<or> (\<not> beginningOfTime b \<and> cmp (eventVersion a) (eventVersion b) \<le> 0))"

text \<open>What the specification asks of the version comparison: a total preorder.\<close>

definition totalPreorder :: "(string \<Rightarrow> string \<Rightarrow> int) \<Rightarrow> bool" where
  "totalPreorder cmp =
     ((\<forall>a b. \<not> cmp a b < 0 \<longrightarrow> cmp b a \<le> 0) \<and>
      (\<forall>a b c. cmp a b \<le> 0 \<and> cmp b c \<le> 0 \<longrightarrow> cmp a c \<le> 0))"

text \<open>The range of the specification's literal scenario, and the same events out of order.\<close>

definition scenarioRange :: AffectsRange where
  "scenarioRange =
     \<lparr>Type = TypeSemver,
      Events = [\<lparr>Introduced = ''0'', Fixed = ''''\<rparr>, \<lparr>Introduced = '''', Fixed = ''1.18.6''\<rparr>,
                \<lparr>Introduced = ''1.19.0'', Fixed = ''''\<rparr>, \<lparr>Introduced = '''', Fixed = ''1.19.1''\<rparr>]\<rparr>"

definition shuffledRange :: AffectsRange where
  "shuffledRange =
     \<lparr>Type = TypeSemver,
      Events = [\<lparr>Introduced = ''1.19.0'', Fixed = ''''\<rparr>, \<lparr>Introduced = '''', Fixed = ''1.19.1''\<rparr>,
                \<lparr>Introduced = ''0'', Fixed = ''''\<rparr>, \<lparr>Introduced = '''', Fixed = ''1.18.6''\<rparr>]\<rparr>"

subsection \<open>Event lists that the sort leaves as they are\<close>




section \<open>Call stack summaries (govulncheck, main.go)\<close>

text \<open>
  A stack entry holds the function node of its frame (never nil in a call stack); of a
  node the summary reads the package path, the receiver type and the printed form.
  \<open>FuncNode.String\<close> belongs to package vulncheck, which is not among the sources: it is
  the parameter \<open>nodeString\<close>.
\<close>

record FuncNode =
  Name :: string
  RecvType :: string
  PkgPath :: string

record StackEntry =
  Function :: FuncNode

definition TrimPrefix :: "string \<Rightarrow> string \<Rightarrow> string" where
  "TrimPrefix s p = (if take (length p) s = p then drop (length p) s else s)"

text \<open>\<open>strings.LastIndexByte\<close>: the index of the last occurrence of the byte, or -1.\<close>

fun LastIndexByte :: "string \<Rightarrow> char \<Rightarrow> nat \<Rightarrow> int" where
  "LastIndexByte s c 0 = - 1"
| "LastIndexByte s c (Suc i) = (if s ! i = c then int i else LastIndexByte s c i)"

definition pkgPath :: "FuncNode \<Rightarrow> string" where
  "pkgPath fn =
     (if PkgPath fn \<noteq> '''' then PkgPath fn
      else
        let s = TrimPrefix (RecvType fn) ''*'';
            i = LastIndexByte s (CHR ''.'') (length s)
        in if i > 0 then take (nat i) s else s)"

definition funcName :: "(FuncNode \<Rightarrow> string) \<Rightarrow> FuncNode \<Rightarrow> string" where
  "funcName nodeString fn = TrimPrefix (nodeString fn) ''*''"

text \<open>
  \<open>highest\<close> scans from index 0 upwards and \<open>lowest\<close> from the last index downwards;
  both return -1 when no entry satisfies \<open>f\<close>.
\<close>

fun highestFrom :: "'a list \<Rightarrow> ('a \<Rightarrow> bool) \<Rightarrow> int \<Rightarrow> int" where
  "highestFrom [] f i = - 1"
| "highestFrom (e # es) f i = (if f e then i else highestFrom es f (i + 1))"

definition highest :: "'a list \<Rightarrow> ('a \<Rightarrow> bool) \<Rightarrow> int" where
  "highest cs f = highestFrom cs f 0"

fun lowestFrom :: "'a list \<Rightarrow> ('a \<Rightarrow> bool) \<Rightarrow> nat \<Rightarrow> int" where
  "lowestFrom cs f 0 = - 1"
| "lowestFrom cs f (Suc i) = (if f (cs ! i) then int i else lowestFrom cs f i)"

definition lowest :: "'a list \<Rightarrow> ('a \<Rightarrow> bool) \<Rightarrow> int" where
  "lowest cs f = lowestFrom cs f (length cs)"

definition summarizeCallStack ::
  "(FuncNode \<Rightarrow> string) \<Rightarrow> StackEntry list \<Rightarrow> (string \<Rightarrow> bool) \<Rightarrow> string \<Rightarrow> string" where
  "summarizeCallStack nodeString cs topPkgs vulnPkg =
     (let iTop = lowest cs (\<lambda>e. topPkgs (pkgPath (Function e))) in
      if iTop < 0 then ''''
      else
        let iVuln = highest (drop (nat (iTop + 1)) cs) (\<lambda>e. pkgPath (Function e) = vulnPkg) in
        if iVuln < 0 then ''''
        else
          let iVuln = iVuln + iTop + 1;
              topName = funcName nodeString (Function (cs ! nat iTop));
              vulnName = funcName nodeString (Function (cs ! nat iVuln))
          in if iVuln = iTop + 1 then topName @ '' calls '' @ vulnName
             else topName @ '' calls '' @ funcName nodeString (Function (cs ! nat (iTop + 1)))
                    @ '', which eventually calls '' @ vulnName)"

text \<open>
  The two frames as the claim words them, for comparison with the code: the top frame is
  the least index whose package is a top-level package, the vulnerable frame the greatest
  index after it whose package is the vulnerable one.
\<close>

definition claimedTop :: "StackEntry list \<Rightarrow> (string \<Rightarrow> bool) \<Rightarrow> nat option" where
  "claimedTop cs topPkgs =
     (case filter (\<lambda>i. topPkgs (pkgPath (Function (cs ! i)))) [0..<length cs] of
        [] \<Rightarrow> None | i # _ \<Rightarrow> Some i)"

definition claimedVuln :: "StackEntry list \<Rightarrow> string \<Rightarrow> nat \<Rightarrow> nat option" where
  "claimedVuln cs vulnPkg t =
     (case rev (filter (\<lambda>i. pkgPath (Function (cs ! i)) = vulnPkg) [Suc t..<length cs]) of
        [] \<Rightarrow> None | i # _ \<Rightarrow> Some i)"

definition claimedSummary ::
  "(FuncNode \<Rightarrow> string) \<Rightarrow> StackEntry list \<Rightarrow> (string \<Rightarrow> bool) \<Rightarrow> string \<Rightarrow> string" where
  "claimedSummary nodeString cs topPkgs vulnPkg =
     (case claimedTop cs topPkgs of
        None \<Rightarrow> ''''
      | Some t \<Rightarrow>
          (case claimedVuln cs vulnPkg t of
             None \<Rightarrow> ''''
           | Some u \<Rightarrow>
               if u = t + 1
               then funcName nodeString (Function (cs ! t)) @ '' calls ''
                      @ funcName nodeString (Function (cs ! u))
               else funcName nodeString (Function (cs ! t)) @ '' calls ''
                      @ funcName nodeString (Function (cs ! (t + 1)))
                      @ '', which eventually calls '' @ funcName nodeString (Function (cs ! u))))"

text \<open>
  The frames the code picks: the greatest index whose package is a top-level package,
  and the least index after it whose package is the vulnerable one.
\<close>

definition isTopFrame :: "StackEntry list \<Rightarrow> (string \<Rightarrow> bool) \<Rightarrow> nat \<Rightarrow> bool" where
  "isTopFrame cs topPkgs t =
     (t < length cs \<and> topPkgs (pkgPath (Function (cs ! t))) \<and>
      (\<forall>e\<in>set (drop (Suc t) cs). \<not> topPkgs (pkgPath (Function e))))"

definition isVulnFrame :: "StackEntry list \<Rightarrow> string \<Rightarrow> nat \<Rightarrow> nat \<Rightarrow> bool" where
  "isVulnFrame cs vulnPkg t u =
     (t < u \<and> u < length cs \<and> pkgPath (Function (cs ! u)) = vulnPkg \<and>
      (\<forall>e\<in>set (take (u - Suc t) (drop (Suc t) cs)). pkgPath (Function e) \<noteq> vulnPkg))"

text \<open>A small stack for illustration: two frames of the user's package over two of the vulnerable one.\<close>

definition plainString :: "FuncNode \<Rightarrow> string" where
  "plainString fn = PkgPath fn @ ''.'' @ Name fn"

definition samplePkgs :: "string \<Rightarrow> bool" where
  "samplePkgs p = (p = ''app'')"

definition sampleStack :: "StackEntry list" where
  "sampleStack =
     [\<lparr>Function = \<lparr>Name = ''main'', RecvType = '''', PkgPath = ''app''\<rparr>\<rparr>,
      \<lparr>Function = \<lparr>Name = ''run'', RecvType = '''', PkgPath = ''app''\<rparr>\<rparr>,
      \<lparr>Function = \<lparr>Name = ''Parse'', RecvType = '''', PkgPath = ''vuln''\<rparr>\<rparr>,
      \<lparr>Function = \<lparr>Name = ''scan'', RecvType = '''', PkgPath = ''vuln''\<rparr>\<rparr>]"

section \<open>The triage worker (internal/worker)\<close>

subsection \<open>Data\<close>

text \<open>
  A git hash is 20 bytes and prints as 40 hexadecimal digits (\<open>plumbing.Hash.String\<close> of
  go-git). A time is a number of ticks, 0 being Go's zero \<open>time.Time\<close>.
\<close>

type_synonym Hash = "8 word list"

type_synonym Time = nat

definition hexDigit :: "nat \<Rightarrow> char" where
  "hexDigit n = ''0123456789abcdef'' ! (n mod 16)"

definition hashString :: "Hash \<Rightarrow> string" where
  "hashString h = concat (map (\<lambda>b. [hexDigit (unat b div 16), hexDigit (unat b mod 16)]) h)"

record repoFile =
  dirPath :: string
  filename :: string
  treeHash :: Hash
  blobHash :: Hash
  year :: int
  number :: int

text \<open>
  Of a parsed CVE (package cveschema) the worker reads the ID, the state and the
  descriptions, each a language and a text.

  Modelled from the spec: the constant \<open>StatePublic\<close> of package cveschema, which is not
  among the sources; section 3 writes the state of a public CVE as PUBLIC.
\<close>

record CVE =
  cve_ID :: string
  cve_State :: string
  cve_Description :: "(string \<times> string) list"

definition StatePublic :: string where
  "StatePublic = ''PUBLIC''"

text \<open>
  The triage state is a string type in Go; \<open>TriageStateOther\<close> stands for every value
  that is none of the four named states (the zero value is \<open>TriageStateOther ''''\<close>).
\<close>

datatype TriageState =
    TriageStateNoActionNeeded
  | TriageStateNeedsIssue
  | TriageStateIssueCreated
  | TriageStateUpdatedSinceIssueCreation
  | TriageStateOther string

record CVERecord =
  ID :: string
  Path :: string
  BlobHash :: string
  CommitHash :: string
  CVEState :: string
  TriageState :: TriageState
  TriageStateReason :: string
  Module :: string
  CVE :: "CVE option"
  IssueReference :: string
  IssueCreatedAt :: Time

record triageResult =
  modulePath :: string
  stdlib :: bool

record Issue =
  Title :: string
  Body :: string
  Labels :: "string list"

datatype StoreOp =
    OpGetDirectoryHash string
  | OpSetDirectoryHash string string
  | OpGetCVERecords string string
  | OpCreateCVERecord CVERecord
  | OpSetCVERecord CVERecord
  | OpListCVERecordsWithTriageState TriageState
  | OpCommit

datatype error =
    ErrNotContiguous string
  | ErrUnknownTriageState TriageState
  | ErrNotFound string
  | ErrExists string
  | ErrExternal string
  | PanicIndexOutOfRange

text \<open>
  Modelled from the spec: \<open>store.NewCVERecord\<close>, which is not among the sources. A record
  is created on first sighting from the CVE's ID and state, the source path and the blob
  hash (section 3); every other field has Go's zero value.
\<close>

definition NewCVERecord :: "CVE \<Rightarrow> string \<Rightarrow> string \<Rightarrow> CVERecord" where
  "NewCVERecord cve pathname blob =
     \<lparr>ID = cve_ID cve, Path = pathname, BlobHash = blob, CommitHash = '''',
      CVEState = cve_State cve, TriageState = TriageStateOther '''', TriageStateReason = '''',
      Module = '''', CVE = None, IssueReference = '''', IssueCreatedAt = 0\<rparr>"

subsection \<open>The store and the world around the worker\<close>

text \<open>
  Modelled from the spec: the store (package store is not among the sources), with the
  operations of section 6. Directory hashes are a map from directory path to hash (the
  empty string when none is stored) and the CVE records a list; \<open>fault\<close> says which
  operations fail with a transport error (section 7), and such an operation changes
  nothing. A record is created on first sighting and mutated in place afterwards
  (section 3): creating a record whose ID is stored fails, setting a record whose ID is
  not stored fails, and setting replaces the record of that ID. A range of records is
  read by comparing IDs as strings. A transaction is atomic: when its body fails, or the
  commit does, the CVE records are as before (section 5). \<open>numTransactions\<close> counts the
  transactions run.

  Beside the store the state holds what else the worker acts on: the calls made to the
  triage function, the tickets filed with the issue tracker, and the clock.
\<close>

record world =
  dirHashes :: "string \<Rightarrow> string"
  cveRecords :: "CVERecord list"
  fault :: "StoreOp \<Rightarrow> error option"
  numTransactions :: nat
  triaged :: "CVE list"
  issues :: "Issue list"
  clock :: Time

definition GetDirectoryHash :: "string \<Rightarrow> world \<Rightarrow> error + string" where
  "GetDirectoryHash dir w =
     (case fault w (OpGetDirectoryHash dir) of
        Some e \<Rightarrow> Inl e
      | None \<Rightarrow> Inr (dirHashes w dir))"

definition SetDirectoryHash :: "string \<Rightarrow> string \<Rightarrow> world \<Rightarrow> error + world" where
  "SetDirectoryHash dir h w =
     (case fault w (OpSetDirectoryHash dir h) of
        Some e \<Rightarrow> Inl e
      | None \<Rightarrow> Inr (w\<lparr>dirHashes := (dirHashes w)(dir := h)\<rparr>))"

definition GetCVERecords :: "string \<Rightarrow> string \<Rightarrow> world \<Rightarrow> error + CVERecord list" where
  "GetCVERecords startID endID w =
     (case fault w (OpGetCVERecords startID endID) of
        Some e \<Rightarrow> Inl e
      | None \<Rightarrow> Inr (filter (\<lambda>r. startID \<le> ID r \<and> ID r \<le> endID) (cveRecords w)))"

definition CreateCVERecord :: "CVERecord \<Rightarrow> world \<Rightarrow> error + world" where
  "CreateCVERecord r w =
     (case fault w (OpCreateCVERecord r) of
        Some e \<Rightarrow> Inl e
      | None \<Rightarrow>
          if ID r \<in> ID ` set (cveRecords w) then Inl (ErrExists (ID r))
          else Inr (w\<lparr>cveRecords := cveRecords w @ [r]\<rparr>))"

definition SetCVERecord :: "CVERecord \<Rightarrow> world \<Rightarrow> error + world" where
  "SetCVERecord r w =
     (case fault w (OpSetCVERecord r) of
        Some e \<Rightarrow> Inl e
      | None \<Rightarrow>
          if ID r \<notin> ID ` set (cveRecords w) then Inl (ErrNotFound (ID r))
          else Inr (w\<lparr>cveRecords := map (\<lambda>x. if ID x = ID r then r else x) (cveRecords w)\<rparr>))"


definition RunTransaction :: "(world \<Rightarrow> (error + 'a) \<times> world) \<Rightarrow> world \<Rightarrow> (error + 'a) \<times> world" where
  "RunTransaction body w =
     (let w0 = w\<lparr>numTransactions := numTransactions w + 1\<rparr>;
          (r, w1) = body w0;
          aborted = w1\<lparr>cveRecords := cveRecords w0\<rparr>
      in case r of
           Inl e \<Rightarrow> (Inl e, aborted)
         | Inr x \<Rightarrow>
             (case fault w0 OpCommit of
                Some e \<Rightarrow> (Inl e, aborted)
              | None \<Rightarrow> (Inr x, w1)))"


subsection \<open>Library functions\<close>

text \<open>
  \<open>path.Base\<close>, \<open>path.Ext\<close> and \<open>strings.TrimSuffix\<close> of the Go standard library, as
  their documentation describes them. \<open>json.Decoder.Decode\<close>, \<open>path.Join\<close> and the
  verb \<open>%q\<close> of \<open>fmt.Sprintf\<close> are parameters, collected in \<open>golib\<close> together with
  the constant \<open>CVEListRepoURL\<close> of package gitrepo, which is not among the sources.
\<close>

definition pathBase :: "string \<Rightarrow> string" where
  "pathBase p =
     (if p = '''' then ''.''
      else
        let q = rev (dropWhile (\<lambda>c. c = CHR ''/'') (rev p));
            b = rev (takeWhile (\<lambda>c. c \<noteq> CHR ''/'') (rev q))
        in if b = '''' then ''/'' else b)"

definition pathExt :: "string \<Rightarrow> string" where
  "pathExt p =
     (let r = takeWhile (\<lambda>c. c \<noteq> CHR ''/'') (rev p) in
      if CHR ''.'' \<in> set r then rev (takeWhile (\<lambda>c. c \<noteq> CHR ''.'') r @ ''.'') else '''')"

definition TrimSuffix :: "string \<Rightarrow> string \<Rightarrow> string" where
  "TrimSuffix s suffix =
     (if length suffix \<le> length s \<and> drop (length s - length suffix) s = suffix
      then take (length s - length suffix) s else s)"

record golib =
  jsonDecode :: "string \<Rightarrow> error + CVE"
  pathJoin :: "string \<Rightarrow> string \<Rightarrow> string"
  quote :: "string \<Rightarrow> string"
  CVEListRepoURL :: string

subsection \<open>The updater (update.go)\<close>

text \<open>
  The updater's repository is read only through \<open>blobReader\<close>, which yields the bytes of
  a blob or fails; the store is the threaded state.
\<close>

record updater =
  repo :: "Hash \<Rightarrow> error + string"
  commitHash :: Hash
  knownIDs :: "string \<Rightarrow> bool"
  affectedModule :: "CVE \<Rightarrow> error + triageResult option"

definition maxTransactionWrites :: nat where
  "maxTransactionWrites = 500"

definition idFromFilename :: "string \<Rightarrow> string" where
  "idFromFilename name = TrimSuffix (pathBase name) (pathExt name)"

definition isCVEFilename :: "string \<Rightarrow> bool" where
  "isCVEFilename name = (take 4 name = ''CVE-'' \<and> pathExt name = ''.json'')"

text \<open>
  The triage step of \<open>handleCVE\<close>: the triage function is called, and the call recorded,
  only for a public CVE whose ID is not known; otherwise \<open>result\<close> stays nil.
\<close>

definition triageStep ::
  "updater \<Rightarrow> CVE \<Rightarrow> world \<Rightarrow> (error + triageResult option) \<times> world" where
  "triageStep u cve w =
     (if cve_State cve = StatePublic \<and> \<not> knownIDs u (cve_ID cve)
      then (affectedModule u cve, w\<lparr>triaged := triaged w @ [cve]\<rparr>)
      else (Inr None, w))"

text \<open>The record \<open>handleCVE\<close> creates for a CVE that is not in the store.\<close>

definition newRecord ::
  "updater \<Rightarrow> repoFile \<Rightarrow> CVE \<Rightarrow> string \<Rightarrow> triageResult option \<Rightarrow> CVERecord" where
  "newRecord u f cve pathname result =
     (let cr = NewCVERecord cve pathname (hashString (blobHash f));
          cr = cr\<lparr>CommitHash := hashString (commitHash u)\<rparr>
      in case result of
           Some res \<Rightarrow> cr\<lparr>TriageState := TriageStateNeedsIssue, Module := modulePath res,
                          CVE := Some cve\<rparr>
         | None \<Rightarrow>
             (let cr = cr\<lparr>TriageState := TriageStateNoActionNeeded\<rparr> in
              if knownIDs u (cve_ID cve) then cr\<lparr>TriageStateReason := ''already in vuln DB''\<rparr>
              else cr))"

text \<open>The change \<open>handleCVE\<close> makes to an existing record, or the error of the default case.\<close>

definition modifiedRecord ::
  "golib \<Rightarrow> updater \<Rightarrow> repoFile \<Rightarrow> CVE \<Rightarrow> string \<Rightarrow> triageResult option \<Rightarrow> CVERecord
     \<Rightarrow> error + CVERecord" where
  "modifiedRecord lib u f cve pathname result old =
     (let modified = old\<lparr>Path := pathname, BlobHash := hashString (blobHash f),
                     CVEState := cve_State cve, CommitHash := hashString (commitHash u)\<rparr>
      in case TriageState old of
           TriageStateNoActionNeeded \<Rightarrow>
             (case result of
                Some res \<Rightarrow> Inr (modified\<lparr>TriageState := TriageStateNeedsIssue, Module := modulePath res\<rparr>)
              | None \<Rightarrow> Inr modified)
         | TriageStateNeedsIssue \<Rightarrow>
             (case result of
                None \<Rightarrow> Inr (modified\<lparr>TriageState := TriageStateNoActionNeeded, Module := '''', CVE := None\<rparr>)
              | Some res \<Rightarrow> Inr modified)
         | TriageStateIssueCreated \<Rightarrow>
             (let mp = (case result of Some res \<Rightarrow> modulePath res | None \<Rightarrow> '''') in
              Inr (modified\<lparr>TriageState := TriageStateUpdatedSinceIssueCreation,
                       TriageStateReason := ''CVE changed; affected module = '' @ quote lib mp\<rparr>))
         | TriageStateUpdatedSinceIssueCreation \<Rightarrow>
             (let mp = (case result of Some res \<Rightarrow> modulePath res | None \<Rightarrow> '''') in
              Inr (modified\<lparr>TriageState := TriageStateUpdatedSinceIssueCreation,
                       TriageStateReason := ''CVE changed; affected module = '' @ quote lib mp\<rparr>))
         | TriageStateOther s \<Rightarrow> Inl (ErrUnknownTriageState (TriageState old)))"

definition handleCVE ::
  "golib \<Rightarrow> updater \<Rightarrow> repoFile \<Rightarrow> CVERecord option \<Rightarrow> world \<Rightarrow> (error + bool) \<times> world" where
  "handleCVE lib u f old w =
     (case repo u (blobHash f) of
        Inl e \<Rightarrow> (Inl e, w)
      | Inr r \<Rightarrow>
          let pathname = pathJoin lib (dirPath f) (filename f) in
          (case jsonDecode lib r of
             Inl e \<Rightarrow> (Inl e, w)
           | Inr cve \<Rightarrow>
               let (tr, w1) = triageStep u cve w in
               (case tr of
                  Inl e \<Rightarrow> (Inl e, w1)
                | Inr result \<Rightarrow>
                    (case old of
                       None \<Rightarrow>
                         (case CreateCVERecord (newRecord u f cve pathname result) w1 of
                            Inl e \<Rightarrow> (Inl e, w1)
                          | Inr w2 \<Rightarrow> (Inr True, w2))
                     | Some old \<Rightarrow>
                         (case modifiedRecord lib u f cve pathname result old of
                            Inl e \<Rightarrow> (Inl e, w1)
                          | Inr modified \<Rightarrow>
                              (case SetCVERecord modified w1 of
                                 Inl e \<Rightarrow> (Inl e, w1)
                               | Inr w2 \<Rightarrow> (Inr False, w2)))))))"

text \<open>
  \<open>updateBatch\<close>: one transaction. Its body reads the stored records of the batch's ID
  range into \<open>idToRecord\<close> and handles every file whose blob hash is not the stored one,
  counting additions and modifications.
\<close>

definition idToRecordOf :: "CVERecord list \<Rightarrow> string \<Rightarrow> CVERecord option" where
  "idToRecordOf crs = foldl (\<lambda>m cr. m(ID cr \<mapsto> cr)) Map.empty crs"

fun batchLoop ::
  "golib \<Rightarrow> updater \<Rightarrow> (string \<Rightarrow> CVERecord option) \<Rightarrow> repoFile list \<Rightarrow> nat \<times> nat \<Rightarrow> world
     \<Rightarrow> (error + nat \<times> nat) \<times> world" where
  "batchLoop lib u idToRecord [] (numAdds, numMods) w = (Inr (numAdds, numMods), w)"
| "batchLoop lib u idToRecord (f # fs) (numAdds, numMods) w =
     (let cveID = idFromFilename (filename f);
          old = idToRecord cveID
      in if old \<noteq> None \<and> BlobHash (the old) = hashString (blobHash f)
         then batchLoop lib u idToRecord fs (numAdds, numMods) w
         else (case handleCVE lib u f old w of
                 (Inl e, w') \<Rightarrow> (Inl e, w')
               | (Inr added, w') \<Rightarrow>
                   if added then batchLoop lib u idToRecord fs (numAdds + 1, numMods) w'
                   else batchLoop lib u idToRecord fs (numAdds, numMods + 1) w'))"

definition updateBatch ::
  "golib \<Rightarrow> updater \<Rightarrow> repoFile list \<Rightarrow> world \<Rightarrow> (error + nat \<times> nat) \<times> world" where
  "updateBatch lib u batch w =
     (if batch = [] then (Inl PanicIndexOutOfRange, w)
      else
        let startID = idFromFilename (filename (batch ! 0));
            endID = idFromFilename (filename (batch ! (length batch - 1)))
        in RunTransaction
             (\<lambda>tx. case GetCVERecords startID endID tx of
                      Inl e \<Rightarrow> (Inl e, tx)
                    | Inr crs \<Rightarrow> batchLoop lib u (idToRecordOf crs) batch (0, 0) tx)
             w)"

record updateStats =
  numProcessed :: nat
  numAdded :: nat
  numModified :: nat

text \<open>The batch loop of \<open>updateDirectory\<close>, from index \<open>i\<close> on.\<close>

function directoryLoop ::
  "golib \<Rightarrow> updater \<Rightarrow> repoFile list \<Rightarrow> nat \<Rightarrow> updateStats \<Rightarrow> world
     \<Rightarrow> (error + updateStats) \<times> world" where
  "directoryLoop lib u dirFiles i stats w =
     (if i < length dirFiles then
        (let j = i + maxTransactionWrites;
             j = (if j > length dirFiles then length dirFiles else j)
         in case updateBatch lib u (take (j - i) (drop i dirFiles)) w of
              (Inl e, w') \<Rightarrow> (Inl e, w')
            | (Inr (numBatchAdds, numBatchMods), w') \<Rightarrow>
                directoryLoop lib u dirFiles (i + maxTransactionWrites)
                  (stats\<lparr>numProcessed := numProcessed stats + (j - i),
                         numAdded := numAdded stats + numBatchAdds,
                         numModified := numModified stats + numBatchMods\<rparr>) w')
      else (Inr stats, w))"
  by pat_completeness auto
termination
  by (relation "measure (\<lambda>(lib, u, dirFiles, i, stats, w). length dirFiles - i)")
     (auto simp: maxTransactionWrites_def)

declare directoryLoop.simps [simp del]

definition updateDirectory ::
  "golib \<Rightarrow> updater \<Rightarrow> repoFile list \<Rightarrow> world \<Rightarrow> (error + updateStats) \<times> world" where
  "updateDirectory lib u dirFiles w =
     (if dirFiles = [] then (Inl PanicIndexOutOfRange, w)
      else
        let dir = dirPath (dirFiles ! 0);
            dirHash = hashString (treeHash (dirFiles ! 0))
        in case GetDirectoryHash dir w of
             Inl e \<Rightarrow> (Inl e, w)
           | Inr dbHash \<Rightarrow>
               if dirHash = dbHash
               then (Inr \<lparr>numProcessed = 0, numAdded = 0, numModified = 0\<rparr>, w)
               else (case SetDirectoryHash dir ''in progress'' w of
                       Inl e \<Rightarrow> (Inl e, w)
                     | Inr w1 \<Rightarrow>
                         (case directoryLoop lib u dirFiles 0
                                 \<lparr>numProcessed = 0, numAdded = 0, numModified = 0\<rparr> w1 of
                            (Inl e, w2) \<Rightarrow> (Inl e, w2)
                          | (Inr stats, w2) \<Rightarrow>
                              (case SetDirectoryHash dir dirHash w2 of
                                 Inl e \<Rightarrow> (Inl e, w2)
                               | Inr w3 \<Rightarrow> (Inr stats, w3)))))"

subsection \<open>Grouping the files of a commit by directory\<close>

fun groupLoop ::
  "repoFile list \<Rightarrow> repoFile list list \<Rightarrow> repoFile list \<Rightarrow> repoFile list list \<times> repoFile list" where
  "groupLoop [] result curDir = (result, curDir)"
| "groupLoop (f # fs) result curDir =
     (if length curDir > 0 \<and> dirPath f \<noteq> dirPath (curDir ! 0)
      then groupLoop fs (result @ [curDir]) [f]
      else groupLoop fs result (curDir @ [f]))"

fun seenLoop :: "repoFile list list \<Rightarrow> (string \<Rightarrow> bool) \<Rightarrow> error option" where
  "seenLoop [] seen = None"
| "seenLoop (dir # dirs) seen =
     (if dir = [] then Some PanicIndexOutOfRange
      else if seen (dirPath (dir ! 0)) then Some (ErrNotContiguous (dirPath (dir ! 0)))
      else seenLoop dirs (seen(dirPath (dir ! 0) := True)))"

definition groupFilesByDirectory :: "repoFile list \<Rightarrow> error + repoFile list list" where
  "groupFilesByDirectory files =
     (if length files = 0 then Inr []
      else
        let (result, curDir) = groupLoop files [] [];
            result = (if length curDir > 0 then result @ [curDir] else result)
        in case seenLoop result (\<lambda>d. False) of
             Some e \<Rightarrow> Inl e
           | None \<Rightarrow> Inr result)"

text \<open>
  In the words of the claim: the files of every directory form a single run, that is,
  once the run that starts at a file has ended, its directory does not come back.
\<close>

fun contiguousDirs :: "repoFile list \<Rightarrow> bool" where
  "contiguousDirs [] = True"
| "contiguousDirs (f # fs) =
     (dirPath f \<notin> dirPath ` set (dropWhile (\<lambda>g. dirPath g = dirPath f) fs) \<and> contiguousDirs fs)"

text \<open>
  What the claim says of a grouping: every group is non-empty and its files share one
  directory path. The code further starts a new group only where the directory changes,
  so that neighbouring groups differ in their directory.
\<close>

definition sameDirectory :: "repoFile list \<Rightarrow> bool" where
  "sameDirectory g = (\<forall>x\<in>set g. dirPath (g ! 0) = dirPath x)"

definition grouped :: "repoFile list list \<Rightarrow> bool" where
  "grouped gs =
     ((\<forall>g\<in>set gs. g \<noteq> [] \<and> sameDirectory g) \<and>
      successively (\<lambda>a b. dirPath (a ! 0) \<noteq> dirPath (b ! 0)) gs)"

text \<open>A file given by its directory and name, as the tests of the grouping write it.\<close>

definition fileIn :: "string \<Rightarrow> string \<Rightarrow> repoFile" where
  "fileIn d n = \<lparr>dirPath = d, filename = n, treeHash = [], blobHash = [], year = 0, number = 0\<rparr>"

subsection \<open>Creating issues (worker.go)\<close>










subsection \<open>Notions used to state the properties of the worker\<close>

text \<open>
  In the words of the claim: the batches of a directory group are its files in order,
  \<open>maxTransactionWrites\<close> to a batch and the remaining ones in the last; they are
  processed one after another, each in the state the one before has left, up to the
  first that fails, and the run succeeds only when every batch has.
\<close>

definition batchesOf :: "repoFile list \<Rightarrow> repoFile list list" where
  "batchesOf dirFiles =
     map (\<lambda>k. take maxTransactionWrites (drop (k * maxTransactionWrites) dirFiles))
       [0..<(length dirFiles + maxTransactionWrites - 1) div maxTransactionWrites]"

fun runBatches ::
  "golib \<Rightarrow> updater \<Rightarrow> repoFile list list \<Rightarrow> world \<Rightarrow> (error + (nat \<times> nat) list) \<times> world" where
  "runBatches lib u [] w = (Inr [], w)"
| "runBatches lib u (b # bs) w =
     (case updateBatch lib u b w of
        (Inl e, w1) \<Rightarrow> (Inl e, w1)
      | (Inr counts, w1) \<Rightarrow>
          (case runBatches lib u bs w1 of
             (Inl e, w2) \<Rightarrow> (Inl e, w2)
           | (Inr rest, w2) \<Rightarrow> (Inr (counts # rest), w2)))"

text \<open>The record the store holds for an ID.\<close>

definition storedRecord :: "world \<Rightarrow> string \<Rightarrow> CVERecord option" where
  "storedRecord w cveID = find (\<lambda>r. ID r = cveID) (cveRecords w)"


subsection \<open>A small world for illustration\<close>

text \<open>
  A toy library (a blob holds just the ID of a public CVE), an updater that knows
  CVE-2020-9283 and whose triage function finds the module golang.org/x/mod, and a store
  without faults.
\<close>

definition toyLib :: golib where
  "toyLib =
     \<lparr>jsonDecode = (\<lambda>raw. Inr \<lparr>cve_ID = raw, cve_State = ''PUBLIC'', cve_Description = []\<rparr>),
      pathJoin = (\<lambda>d n. d @ ''/'' @ n),
      quote = (\<lambda>s. ''\"'' @ s @ ''\"''),
      CVEListRepoURL = ''https://github.com/CVEProject/cvelist''\<rparr>"

definition toyUpdater :: updater where
  "toyUpdater =
     \<lparr>repo = (\<lambda>h. if h = [1] then Inr ''CVE-2021-0001'' else Inr ''CVE-2020-9283''),
      commitHash = [171],
      knownIDs = (\<lambda>cveID. cveID = ''CVE-2020-9283''),
      affectedModule = (\<lambda>c. Inr (Some \<lparr>modulePath = ''golang.org/x/mod'', stdlib = False\<rparr>))\<rparr>"

definition toyRecord :: "string \<Rightarrow> TriageState \<Rightarrow> CVERecord" where
  "toyRecord cveID ts =
     \<lparr>ID = cveID, Path = ''old/path'', BlobHash = ''00'', CommitHash = ''?'', CVEState = ''RESERVED'',
      TriageState = ts, TriageStateReason = '''', Module = '''', CVE = None,
      IssueReference = '''', IssueCreatedAt = 0\<rparr>"

definition toyWorld :: "CVERecord list \<Rightarrow> world" where
  "toyWorld rs =
     \<lparr>dirHashes = (\<lambda>d. ''''), cveRecords = rs, fault = (\<lambda>op. None), numTransactions = 0,
      triaged = [], issues = [], clock = 0\<rparr>"

definition toyFile :: "string \<Rightarrow> Hash \<Rightarrow> repoFile" where
  "toyFile n h = \<lparr>dirPath = ''2021/0xxx'', filename = n, treeHash = [7], blobHash = h,
                  year = 2021, number = 1\<rparr>"



text \<open>An empty store whose transactions cannot be committed.\<close>

definition unavailableWorld :: world where
  "unavailableWorld =
     (toyWorld [])\<lparr>fault := (\<lambda>op. if op = OpCommit then Some (ErrExternal ''unavailable'') else None)\<rparr>"

text \<open>
  A directory group of more files than one transaction may write: the file of
  CVE-2021-0001 as often as a batch holds files, and then the file of the known
  CVE-2020-9283; and a store that holds the record of the first with the blob hash of
  its file.
\<close>

definition manyFiles :: "repoFile list" where
  "manyFiles =
     replicate maxTransactionWrites (toyFile ''CVE-2021-0001.json'' [1])
       @ [toyFile ''CVE-2020-9283.json'' [2]]"

definition storedWorld :: world where
  "storedWorld =
     toyWorld [(toyRecord ''CVE-2021-0001'' TriageStateNoActionNeeded)\<lparr>BlobHash := ''01''\<rparr>]"

section \<open>Properties of the semver engine\<close>

subsection \<open>The sort\<close>

lemma eventLess_alt:
  "eventLess cmp a b =
     (beginningOfTime a \<or> (\<not> beginningOfTime b \<and> cmp (eventVersion a) (eventVersion b) < 0))"
  by (auto simp: eventLess_def beginningOfTime_def eventVersion_def Let_def)

lemma mset_moveLeft: "mset (moveLeft lt x ys) = add_mset x (mset ys)"
  by (induction ys) auto

lemma set_moveLeft: "set (moveLeft lt x ys) = insert x (set ys)"
  by (induction ys) auto

lemma mset_foldl_moveLeft:
  "mset (foldl (\<lambda>placed x. moveLeft lt x placed) acc xs) = mset acc + mset xs"
  by (induction xs arbitrary: acc) (auto simp: mset_moveLeft)

lemma mset_SliceStable: "mset (SliceStable lt xs) = mset xs"
  by (simp add: SliceStable_def mset_foldl_moveLeft)

lemma tp_anti: "totalPreorder cmp \<Longrightarrow> \<not> cmp a b < 0 \<Longrightarrow> cmp b a \<le> 0"
  unfolding totalPreorder_def by blast

lemma tp_trans: "totalPreorder cmp \<Longrightarrow> cmp a b \<le> 0 \<Longrightarrow> cmp b c \<le> 0 \<Longrightarrow> cmp a c \<le> 0"
  unfolding totalPreorder_def by blast

lemma inOrder_stop: "totalPreorder cmp \<Longrightarrow> \<not> eventLess cmp x y \<Longrightarrow> inOrder cmp y x"
  unfolding eventLess_alt inOrder_def using tp_anti[of cmp] by blast

lemma inOrder_trans:
  "totalPreorder cmp \<Longrightarrow> inOrder cmp z y \<Longrightarrow> inOrder cmp y x \<Longrightarrow> inOrder cmp z x"
  unfolding inOrder_def using tp_trans[of cmp] by blast

lemma inOrder_pass: "eventLess cmp x y \<Longrightarrow> inOrder cmp x y"
  unfolding eventLess_alt inOrder_def by auto

text \<open>Moving one more event into a prefix that is in order keeps it in order.\<close>

lemma moveLeft_inOrder:
  assumes tp: "totalPreorder cmp" and srt: "sorted_wrt (\<lambda>a b. inOrder cmp b a) ys"
  shows "sorted_wrt (\<lambda>a b. inOrder cmp b a) (moveLeft (eventLess cmp) x ys)"
  using srt
proof (induction ys)
  case Nil
  then show ?case by simp
next
  case (Cons y ys)
  show ?case
  proof (cases "eventLess cmp x y")
    case True
    with Cons inOrder_pass[OF True] show ?thesis by (simp add: set_moveLeft)
  next
    case False
    have yx: "inOrder cmp y x" by (rule inOrder_stop[OF tp False])
    have "\<forall>z\<in>set ys. inOrder cmp z x"
      using Cons.prems inOrder_trans[OF tp _ yx] by simp
    with yx Cons.prems False show ?thesis by simp
  qed
qed

lemma foldl_moveLeft_inOrder:
  assumes tp: "totalPreorder cmp" and srt: "sorted_wrt (\<lambda>a b. inOrder cmp b a) acc"
  shows "sorted_wrt (\<lambda>a b. inOrder cmp b a)
           (foldl (\<lambda>placed x. moveLeft (eventLess cmp) x placed) acc xs)"
  using srt by (induction xs arbitrary: acc) (auto simp: moveLeft_inOrder[OF tp])

lemma SliceStable_inOrder:
  "totalPreorder cmp \<Longrightarrow> sorted_wrt (inOrder cmp) (SliceStable (eventLess cmp) xs)"
  using foldl_moveLeft_inOrder[of cmp "[]" xs] by (simp add: SliceStable_def sorted_wrt_rev)

text \<open>Whatever the comparison does, the beginning-of-time events end up in front.\<close>

lemma moveLeft_beginningFirst:
  assumes "sorted_wrt (\<lambda>a b. beginningFirst b a) ys"
  shows "sorted_wrt (\<lambda>a b. beginningFirst b a) (moveLeft (eventLess cmp) x ys)"
  using assms
proof (induction ys)
  case Nil
  then show ?case by simp
next
  case (Cons y ys)
  show ?case
  proof (cases "eventLess cmp x y")
    case True
    then have "beginningFirst x y" by (auto simp: eventLess_alt beginningFirst_def)
    with Cons True show ?thesis by (simp add: set_moveLeft)
  next
    case False
    then have nz: "\<not> beginningOfTime x" by (auto simp: eventLess_alt)
    then have "\<forall>z\<in>set (y # ys). beginningFirst z x" by (simp add: beginningFirst_def)
    with Cons.prems False show ?thesis by simp
  qed
qed

lemma foldl_moveLeft_beginningFirst:
  "sorted_wrt (\<lambda>a b. beginningFirst b a) acc \<Longrightarrow>
   sorted_wrt (\<lambda>a b. beginningFirst b a)
     (foldl (\<lambda>placed x. moveLeft (eventLess cmp) x placed) acc xs)"
  by (induction xs arbitrary: acc) (auto simp: moveLeft_beginningFirst)

lemma SliceStable_beginningFirst:
  "sorted_wrt beginningFirst (SliceStable (eventLess cmp) xs)"
  using foldl_moveLeft_beginningFirst[of "[]" cmp xs] by (simp add: SliceStable_def sorted_wrt_rev)

subsection \<open>The stand-in comparison is a total preorder\<close>

lemma releaseCompare_total: "totalPreorder releaseCompare"
  unfolding totalPreorder_def
proof (intro conjI allI impI)
  fix a b assume "\<not> releaseCompare a b < 0"
  then show "releaseCompare b a \<le> 0"
    by (cases "parseVersion a"; cases "parseVersion b")
       (auto simp: releaseCompare_def compareInt_def split: if_splits)
next
  fix a b c assume "releaseCompare a b \<le> 0 \<and> releaseCompare b c \<le> 0"
  then show "releaseCompare a c \<le> 0"
    by (cases "parseVersion a"; cases "parseVersion b"; cases "parseVersion c")
       (auto simp: releaseCompare_def compareInt_def split: if_splits)
qed

lemmas release_eval =
  containsSemver_def SliceStable_def eventLess_def walkStep_def CanonicalizeSemverPrefix_def
  releaseCompare_def parseVersion_def parseInt_def isDigit_def digitVal_def compareInt_def

subsection \<open>The walk over the sorted events\<close>

lemma walkStep_introduced:
  "Introduced e \<noteq> '''' \<Longrightarrow> Fixed e = '''' \<Longrightarrow>
   Introduced e = ''0'' \<or> 0 \<le> cmp v (CanonicalizeSemverPrefix (Introduced e)) \<Longrightarrow>
   walkStep cmp v affected e"
  by (auto simp: walkStep_def)

lemma walkStep_introduced_later:
  "Introduced e \<noteq> '''' \<Longrightarrow> Fixed e = '''' \<Longrightarrow>
   \<not> (Introduced e = ''0'' \<or> 0 \<le> cmp v (CanonicalizeSemverPrefix (Introduced e))) \<Longrightarrow>
   walkStep cmp v affected e = affected"
  by (auto simp: walkStep_def)

lemma walkStep_fixed_later:
  "Introduced e = '''' \<Longrightarrow> Fixed e \<noteq> '''' \<Longrightarrow>
   cmp v (CanonicalizeSemverPrefix (Fixed e)) < 0 \<Longrightarrow> walkStep cmp v affected e = affected"
  by (auto simp: walkStep_def)

lemma walkStep_fixed:
  "Introduced e = '''' \<Longrightarrow> Fixed e \<noteq> '''' \<Longrightarrow>
   \<not> cmp v (CanonicalizeSemverPrefix (Fixed e)) < 0 \<Longrightarrow> \<not> walkStep cmp v affected e"
  by (auto simp: walkStep_def)

lemma scenario_not_contained: "\<not> fst (containsSemver releaseCompare scenarioRange ''v1.18.6'')"
  by (simp add: scenarioRange_def release_eval)

lemma scenario_contained: "fst (containsSemver releaseCompare scenarioRange ''v1.18.1'')"
  by (simp add: scenarioRange_def release_eval)

text \<open>
  Claim C1. \<open>containsSemver\<close> answers false on a range that is not of semver type and true
  on a semver range without events. Otherwise the events are sorted in place: the array
  afterwards holds the same events, the beginning-of-time events in front and, when the
  comparison is a total preorder, all others in the order of the version they carry; the
  answer is the flag after walking these events from \<open>False\<close>. One step of the walk makes
  the flag true on an introduced event whose version is \<open>"0"\<close> or at most \<open>v\<close>, leaves it
  as it is on an introduced event with a later version and on a fixed event with a version
  above \<open>v\<close> (so a true flag stays true), and makes it false on a fixed event whose version
  is at most \<open>v\<close>. For the range \<open>introduced 0, fixed 1.18.6, introduced 1.19.0,
  fixed 1.19.1\<close>, version v1.18.6 is not contained and version v1.18.1 is.
\<close>

theorem containsSemver_walk:
  "(Type ar \<noteq> TypeSemver \<longrightarrow> \<not> fst (containsSemver cmp ar v)) \<and>
   (Type ar = TypeSemver \<and> Events ar = [] \<longrightarrow> fst (containsSemver cmp ar v)) \<and>
   (Type ar = TypeSemver \<and> Events ar \<noteq> [] \<longrightarrow>
      (let evs = snd (containsSemver cmp ar v) in
         mset evs = mset (Events ar) \<and>
         sorted_wrt beginningFirst evs \<and>
         (totalPreorder cmp \<longrightarrow> sorted_wrt (inOrder cmp) evs) \<and>
         fst (containsSemver cmp ar v) =
           foldl (walkStep cmp (CanonicalizeSemverPrefix v)) False evs)) \<and>
   (\<forall>affected e. Introduced e \<noteq> '''' \<and> Fixed e = '''' \<and>
        (Introduced e = ''0'' \<or> 0 \<le> cmp w (CanonicalizeSemverPrefix (Introduced e)))
        \<longrightarrow> walkStep cmp w affected e) \<and>
   (\<forall>affected e. Introduced e \<noteq> '''' \<and> Fixed e = '''' \<and>
        \<not> (Introduced e = ''0'' \<or> 0 \<le> cmp w (CanonicalizeSemverPrefix (Introduced e)))
        \<longrightarrow> walkStep cmp w affected e = affected) \<and>
   (\<forall>affected e. Introduced e = '''' \<and> Fixed e \<noteq> '''' \<and>
        cmp w (CanonicalizeSemverPrefix (Fixed e)) < 0
        \<longrightarrow> walkStep cmp w affected e = affected) \<and>
   (\<forall>affected e. Introduced e = '''' \<and> Fixed e \<noteq> '''' \<and>
        \<not> cmp w (CanonicalizeSemverPrefix (Fixed e)) < 0
        \<longrightarrow> \<not> walkStep cmp w affected e) \<and>
   \<not> fst (containsSemver releaseCompare scenarioRange ''v1.18.6'') \<and>
   fst (containsSemver releaseCompare scenarioRange ''v1.18.1'')"
proof -
  have a: "Type ar \<noteq> TypeSemver \<longrightarrow> \<not> fst (containsSemver cmp ar v)"
    by (simp add: containsSemver_def)
  have b: "Type ar = TypeSemver \<and> Events ar = [] \<longrightarrow> fst (containsSemver cmp ar v)"
    by (simp add: containsSemver_def)
  have c: "Type ar = TypeSemver \<and> Events ar \<noteq> [] \<longrightarrow>
      (let evs = snd (containsSemver cmp ar v) in
         mset evs = mset (Events ar) \<and>
         sorted_wrt beginningFirst evs \<and>
         (totalPreorder cmp \<longrightarrow> sorted_wrt (inOrder cmp) evs) \<and>
         fst (containsSemver cmp ar v) =
           foldl (walkStep cmp (CanonicalizeSemverPrefix v)) False evs)"
    by (simp add: containsSemver_def Let_def mset_SliceStable SliceStable_beginningFirst
        SliceStable_inOrder)
  show ?thesis
    using a b c walkStep_introduced[of _ cmp w] walkStep_introduced_later[of _ cmp w]
      walkStep_fixed_later[of _ cmp w] walkStep_fixed[of _ cmp w]
      scenario_not_contained scenario_contained
    by blast
qed

theorem containsSemver_walk_witness:
  "Type shuffledRange = TypeSemver \<and> Events shuffledRange \<noteq> [] \<and>
   totalPreorder releaseCompare \<and>
   snd (containsSemver releaseCompare shuffledRange ''v1.18.1'') = Events scenarioRange \<and>
   sorted_wrt (inOrder releaseCompare) (Events scenarioRange) \<and>
   fst (containsSemver releaseCompare shuffledRange ''v1.18.1'') \<and>
   walkStep releaseCompare ''v1.18.1'' False \<lparr>Introduced = ''0'', Fixed = ''''\<rparr> \<and>
   walkStep releaseCompare ''v1.18.1'' True \<lparr>Introduced = ''1.19.0'', Fixed = ''''\<rparr> \<and>
   walkStep releaseCompare ''v1.18.1'' True \<lparr>Introduced = '''', Fixed = ''1.18.6''\<rparr> \<and>
   \<not> walkStep releaseCompare ''v1.18.6'' True \<lparr>Introduced = '''', Fixed = ''1.18.6''\<rparr> \<and>
   \<not> fst (containsSemver releaseCompare
           \<lparr>Type = TypeUnspecified, Events = [\<lparr>Introduced = ''3.0.0'', Fixed = ''''\<rparr>]\<rparr> ''v3.0.0'') \<and>
   fst (containsSemver releaseCompare \<lparr>Type = TypeSemver, Events = []\<rparr> ''v0.0.0'')"
proof -
  from containsSemver_walk[of "\<lparr>Type = TypeUnspecified, Events = [\<lparr>Introduced = ''3.0.0'', Fixed = ''''\<rparr>]\<rparr>"
      releaseCompare "''v3.0.0''" "''v3.0.0''"]
  have u: "\<not> fst (containsSemver releaseCompare
           \<lparr>Type = TypeUnspecified, Events = [\<lparr>Introduced = ''3.0.0'', Fixed = ''''\<rparr>]\<rparr> ''v3.0.0'')"
    by simp
  from containsSemver_walk[of "\<lparr>Type = TypeSemver, Events = []\<rparr>" releaseCompare "''v0.0.0''" "''v0.0.0''"]
  have n: "fst (containsSemver releaseCompare \<lparr>Type = TypeSemver, Events = []\<rparr> ''v0.0.0'')"
    by simp
  have evs: "snd (containsSemver releaseCompare shuffledRange ''v1.18.1'') = Events scenarioRange"
    by (simp add: shuffledRange_def scenarioRange_def release_eval)
  have r: "fst (containsSemver releaseCompare shuffledRange ''v1.18.1'')"
    by (simp add: shuffledRange_def release_eval)
  have c1: "\<not> 0 \<le> releaseCompare ''v1.18.1'' (CanonicalizeSemverPrefix ''1.19.0'')"
    by (simp add: release_eval)
  have c2: "releaseCompare ''v1.18.1'' (CanonicalizeSemverPrefix ''1.18.6'') < 0"
    by (simp add: release_eval)
  have c3: "\<not> releaseCompare ''v1.18.6'' (CanonicalizeSemverPrefix ''1.18.6'') < 0"
    by (simp add: release_eval)
  have ty: "Type shuffledRange = TypeSemver \<and> Events shuffledRange \<noteq> []"
    by (simp add: shuffledRange_def)
  note th = containsSemver_walk[of shuffledRange releaseCompare "''v1.18.1''" "''v1.18.1''"]
  note th6 = containsSemver_walk[of shuffledRange releaseCompare "''v1.18.1''" "''v1.18.6''"]
  from th ty releaseCompare_total evs
  have s: "sorted_wrt (inOrder releaseCompare) (Events scenarioRange)"
    by (simp add: Let_def)
  from th have w1: "walkStep releaseCompare ''v1.18.1'' False \<lparr>Introduced = ''0'', Fixed = ''''\<rparr>"
    by simp
  from th c1 have w2: "walkStep releaseCompare ''v1.18.1'' True \<lparr>Introduced = ''1.19.0'', Fixed = ''''\<rparr>"
    by simp
  from th c2 have w3: "walkStep releaseCompare ''v1.18.1'' True \<lparr>Introduced = '''', Fixed = ''1.18.6''\<rparr>"
    by simp
  from th6 c3 have w4: "\<not> walkStep releaseCompare ''v1.18.6'' True \<lparr>Introduced = '''', Fixed = ''1.18.6''\<rparr>"
    by simp
  from ty releaseCompare_total evs s r w1 w2 w3 w4 u n show ?thesis by blast
qed

subsection \<open>affectsSemver\<close>

lemma affectsLoop_result:
  "fst (affectsLoop cmp rs v present) =
     ((\<exists>r\<in>set rs. Type r = TypeSemver \<and> fst (containsSemver cmp r v)) \<or>
      (\<not> present \<and> (\<forall>r\<in>set rs. Type r \<noteq> TypeSemver)))"
proof (induction rs arbitrary: present)
  case Nil
  show ?case by simp
next
  case (Cons r rs)
  show ?case
  proof (cases "Type r = TypeSemver")
    case False
    then show ?thesis using Cons.IH[of present] by (simp add: split_def)
  next
    case True
    then show ?thesis using Cons.IH[of True] by (simp add: split_def Let_def)
  qed
qed

text \<open>
  Claim C2. \<open>affectsSemver\<close> answers true when the list of ranges is empty, true when no
  range in it is of semver type, and otherwise exactly when some semver range contains
  the version.
\<close>

theorem affectsSemver_iff:
  "fst (affectsSemver cmp a v) =
     (a = [] \<or> (\<forall>r\<in>set a. Type r \<noteq> TypeSemver) \<or>
      (\<exists>r\<in>set a. Type r = TypeSemver \<and> fst (containsSemver cmp r v)))"
  by (auto simp: affectsSemver_def affectsLoop_result)

theorem affectsSemver_iff_witness:
  "\<not> fst (affectsSemver releaseCompare
       [\<lparr>Type = TypeUnspecified, Events = [\<lparr>Introduced = ''3.0.0'', Fixed = ''''\<rparr>]\<rparr>,
        \<lparr>Type = TypeSemver, Events = [\<lparr>Introduced = ''4.0.0'', Fixed = ''''\<rparr>]\<rparr>] ''v3.0.0'') \<and>
   fst (affectsSemver releaseCompare
       [\<lparr>Type = TypeUnspecified, Events = [\<lparr>Introduced = ''3.0.0'', Fixed = ''''\<rparr>]\<rparr>,
        \<lparr>Type = TypeSemver, Events = [\<lparr>Introduced = ''3.0.0'', Fixed = ''''\<rparr>]\<rparr>] ''go3.0.1'') \<and>
   fst (affectsSemver releaseCompare
       [\<lparr>Type = TypeUnspecified, Events = [\<lparr>Introduced = ''3.0.0'', Fixed = ''''\<rparr>]\<rparr>] ''v3.0.0'')"
proof -
  have n: "\<not> fst (containsSemver releaseCompare
      \<lparr>Type = TypeSemver, Events = [\<lparr>Introduced = ''4.0.0'', Fixed = ''''\<rparr>]\<rparr> ''v3.0.0'')"
    by (simp add: release_eval)
  have y: "fst (containsSemver releaseCompare
      \<lparr>Type = TypeSemver, Events = [\<lparr>Introduced = ''3.0.0'', Fixed = ''''\<rparr>]\<rparr> ''go3.0.1'')"
    by (simp add: release_eval)
  show ?thesis
    using n y
      affectsSemver_iff[of releaseCompare
        "[\<lparr>Type = TypeUnspecified, Events = [\<lparr>Introduced = ''3.0.0'', Fixed = ''''\<rparr>]\<rparr>,
          \<lparr>Type = TypeSemver, Events = [\<lparr>Introduced = ''4.0.0'', Fixed = ''''\<rparr>]\<rparr>]" "''v3.0.0''"]
      affectsSemver_iff[of releaseCompare
        "[\<lparr>Type = TypeUnspecified, Events = [\<lparr>Introduced = ''3.0.0'', Fixed = ''''\<rparr>]\<rparr>,
          \<lparr>Type = TypeSemver, Events = [\<lparr>Introduced = ''3.0.0'', Fixed = ''''\<rparr>]\<rparr>]" "''go3.0.1''"]
      affectsSemver_iff[of releaseCompare
        "[\<lparr>Type = TypeUnspecified, Events = [\<lparr>Introduced = ''3.0.0'', Fixed = ''''\<rparr>]\<rparr>]" "''v3.0.0''"]
    by simp
qed

subsection \<open>What a call does to the caller's events\<close>



























section \<open>Properties of the call stack summary\<close>

lemma lowestFrom_none: "(\<forall>j<n. \<not> f (cs ! j)) \<Longrightarrow> lowestFrom cs f n = - 1"
  by (induction n) auto

lemma lowestFrom_some:
  "t < n \<Longrightarrow> f (cs ! t) \<Longrightarrow> (\<forall>j. t < j \<and> j < n \<longrightarrow> \<not> f (cs ! j)) \<Longrightarrow> lowestFrom cs f n = int t"
proof (induction n)
  case 0
  then show ?case by simp
next
  case (Suc n)
  show ?case
  proof (cases "t = n")
    case True
    with Suc.prems show ?thesis by simp
  next
    case False
    with Suc.prems have "t < n" by simp
    moreover from Suc.prems \<open>t < n\<close> have "\<not> f (cs ! n)" by simp
    ultimately show ?thesis using Suc by simp
  qed
qed

lemma highestFrom_none: "(\<forall>e\<in>set es. \<not> f e) \<Longrightarrow> highestFrom es f i = - 1"
  by (induction es arbitrary: i) auto

lemma highestFrom_some:
  "k < length es \<Longrightarrow> f (es ! k) \<Longrightarrow> (\<forall>e\<in>set (take k es). \<not> f e) \<Longrightarrow> highestFrom es f i = i + int k"
proof (induction es arbitrary: i k)
  case Nil
  then show ?case by simp
next
  case (Cons e es)
  show ?case
  proof (cases k)
    case 0
    with Cons.prems show ?thesis by simp
  next
    case (Suc k')
    with Cons.prems have "\<not> f e" by auto
    moreover have "highestFrom es f (i + 1) = (i + 1) + int k'"
      using Cons.prems Suc by (intro Cons.IH) auto
    ultimately show ?thesis using Suc by simp
  qed
qed

lemma lowest_top:
  assumes "isTopFrame cs topPkgs t"
  shows "lowest cs (\<lambda>e. topPkgs (pkgPath (Function e))) = int t"
proof -
  have "\<not> topPkgs (pkgPath (Function (cs ! j)))" if "t < j" "j < length cs" for j
  proof -
    have "cs ! j = drop (Suc t) cs ! (j - Suc t)" using that by simp
    moreover have "j - Suc t < length (drop (Suc t) cs)" using that by simp
    ultimately have "cs ! j \<in> set (drop (Suc t) cs)" by (metis nth_mem)
    with assms show ?thesis by (simp add: isTopFrame_def)
  qed
  with assms show ?thesis unfolding isTopFrame_def lowest_def by (intro lowestFrom_some) auto
qed

lemma summarize_no_top:
  assumes "\<forall>e\<in>set cs. \<not> topPkgs (pkgPath (Function e))"
  shows "summarizeCallStack str cs topPkgs vulnPkg = ''''"
proof -
  have "lowestFrom cs (\<lambda>e. topPkgs (pkgPath (Function e))) (length cs) = - 1"
    using assms by (intro lowestFrom_none) simp
  then show ?thesis by (simp add: summarizeCallStack_def lowest_def)
qed

lemma summarize_no_vuln:
  assumes "isTopFrame cs topPkgs t" "\<forall>e\<in>set (drop (Suc t) cs). pkgPath (Function e) \<noteq> vulnPkg"
  shows "summarizeCallStack str cs topPkgs vulnPkg = ''''"
proof -
  note l = lowest_top[OF assms(1)]
  have h: "highest (drop (Suc t) cs) (\<lambda>e. pkgPath (Function e) = vulnPkg) = - 1"
    unfolding highest_def using assms(2) by (intro highestFrom_none) simp
  have n: "nat (int t + 1) = Suc t" by simp
  show ?thesis unfolding summarizeCallStack_def l by (simp add: Let_def n h)
qed

lemma summarize_both:
  assumes "isTopFrame cs topPkgs t" "isVulnFrame cs vulnPkg t u"
  shows "summarizeCallStack str cs topPkgs vulnPkg =
    (if u = t + 1 then funcName str (Function (cs ! t)) @ '' calls '' @ funcName str (Function (cs ! u))
     else funcName str (Function (cs ! t)) @ '' calls '' @ funcName str (Function (cs ! (t + 1)))
            @ '', which eventually calls '' @ funcName str (Function (cs ! u)))"
proof -
  note l = lowest_top[OF assms(1)]
  from assms(2) have tu: "t < u" "u < length cs" by (auto simp: isVulnFrame_def)
  define k where "k = u - Suc t"
  have k: "u = Suc t + k" using tu by (simp add: k_def)
  have "highestFrom (drop (Suc t) cs) (\<lambda>e. pkgPath (Function e) = vulnPkg) 0 = 0 + int k"
    using assms(2) tu unfolding isVulnFrame_def k by (intro highestFrom_some) auto
  then have h: "highest (drop (Suc t) cs) (\<lambda>e. pkgPath (Function e) = vulnPkg) = int k"
    by (simp add: highest_def)
  have n: "nat (int t + 1) = Suc t" by simp
  show ?thesis unfolding summarizeCallStack_def l using tu
    by (simp add: Let_def n h k nat_add_distrib add.commute)
qed

lemmas summary_eval =
  summarizeCallStack_def lowest_def highest_def pkgPath_def funcName_def TrimPrefix_def
  plainString_def sampleStack_def samplePkgs_def

text \<open>
  Claim C3, as stated, takes the least index of a top-level frame and the greatest index
  of a vulnerable frame after it. On the sample stack (app.main, app.run, vuln.Parse,
  vuln.scan) that reading gives "app.main calls app.run, which eventually calls
  vuln.scan", while the code returns "app.run calls vuln.Parse".
\<close>

theorem summarizeCallStack_differs:
  "summarizeCallStack plainString sampleStack samplePkgs ''vuln''
     \<noteq> claimedSummary plainString sampleStack samplePkgs ''vuln''"
proof -
  have a: "summarizeCallStack plainString sampleStack samplePkgs ''vuln'' = ''app.run calls vuln.Parse''"
    by (simp add: summary_eval)
  have b: "claimedSummary plainString sampleStack samplePkgs ''vuln''
             = ''app.main calls app.run, which eventually calls vuln.scan''"
    by (simp add: claimedSummary_def claimedTop_def claimedVuln_def upt_conv_Cons summary_eval)
  show ?thesis unfolding a b by simp
qed

text \<open>
  Claim C3, amended. The top frame T is the frame with the greatest index whose package
  is a top-level package (\<open>lowest\<close> in the code: the lowest in the stack), and the
  vulnerable frame U is the frame with the least index after T whose package is the
  vulnerable one (\<open>highest\<close>). Without a T, or without a U after T, the summary is
  empty; otherwise it is "T calls U" when U is at index T+1 and "T calls M, which
  eventually calls U" with M the frame at index T+1, so it names both functions.
\<close>

theorem summarizeCallStack_frames:
  "((\<forall>e\<in>set cs. \<not> topPkgs (pkgPath (Function e))) \<longrightarrow>
      summarizeCallStack str cs topPkgs vulnPkg = '''') \<and>
   (isTopFrame cs topPkgs t \<and> (\<forall>e\<in>set (drop (Suc t) cs). pkgPath (Function e) \<noteq> vulnPkg) \<longrightarrow>
      summarizeCallStack str cs topPkgs vulnPkg = '''') \<and>
   (isTopFrame cs topPkgs t \<and> isVulnFrame cs vulnPkg t u \<longrightarrow>
      summarizeCallStack str cs topPkgs vulnPkg =
        (if u = t + 1
         then funcName str (Function (cs ! t)) @ '' calls '' @ funcName str (Function (cs ! u))
         else funcName str (Function (cs ! t)) @ '' calls ''
                @ funcName str (Function (cs ! (t + 1)))
                @ '', which eventually calls '' @ funcName str (Function (cs ! u))))"
  using summarize_no_top[of cs topPkgs str vulnPkg] summarize_no_vuln[of cs topPkgs t vulnPkg str]
    summarize_both[of cs topPkgs t vulnPkg u str]
  by blast

theorem summarizeCallStack_frames_witness:
  "isTopFrame sampleStack samplePkgs 1 \<and> isVulnFrame sampleStack ''vuln'' 1 2 \<and>
   summarizeCallStack plainString sampleStack samplePkgs ''vuln'' = ''app.run calls vuln.Parse'' \<and>
   isTopFrame (sampleStack[1 := \<lparr>Function = \<lparr>Name = ''Do'', RecvType = '''', PkgPath = ''lib''\<rparr>\<rparr>])
     samplePkgs 0 \<and>
   isVulnFrame (sampleStack[1 := \<lparr>Function = \<lparr>Name = ''Do'', RecvType = '''', PkgPath = ''lib''\<rparr>\<rparr>])
     ''vuln'' 0 2 \<and>
   summarizeCallStack plainString
     (sampleStack[1 := \<lparr>Function = \<lparr>Name = ''Do'', RecvType = '''', PkgPath = ''lib''\<rparr>\<rparr>])
     samplePkgs ''vuln'' = ''app.main calls lib.Do, which eventually calls vuln.Parse'' \<and>
   summarizeCallStack plainString (drop 2 sampleStack) samplePkgs ''vuln'' = '''' \<and>
   isTopFrame (take 2 sampleStack) samplePkgs 1 \<and>
   summarizeCallStack plainString (take 2 sampleStack) samplePkgs ''vuln'' = ''''"
proof -
  have nt: "\<forall>e\<in>set (drop 2 sampleStack). \<not> samplePkgs (pkgPath (Function e))"
    by (simp add: sampleStack_def samplePkgs_def pkgPath_def)
  from summarizeCallStack_frames[of "drop 2 sampleStack" samplePkgs plainString "''vuln''" 0 0] nt
  have e1: "summarizeCallStack plainString (drop 2 sampleStack) samplePkgs ''vuln'' = ''''"
    by blast
  have t2: "isTopFrame (take 2 sampleStack) samplePkgs 1"
    by (simp add: isTopFrame_def sampleStack_def samplePkgs_def pkgPath_def)
  have nv: "\<forall>e\<in>set (drop (Suc 1) (take 2 sampleStack)). pkgPath (Function e) \<noteq> ''vuln''"
    by (simp add: sampleStack_def)
  from summarizeCallStack_frames[of "take 2 sampleStack" samplePkgs plainString "''vuln''" 1 0] t2 nv
  have e2: "summarizeCallStack plainString (take 2 sampleStack) samplePkgs ''vuln'' = ''''"
    by blast
  define deep where
    "deep = sampleStack[1 := \<lparr>Function = \<lparr>Name = ''Do'', RecvType = '''', PkgPath = ''lib''\<rparr>\<rparr>]"
  have t: "isTopFrame sampleStack samplePkgs 1"
    by (simp add: isTopFrame_def sampleStack_def samplePkgs_def pkgPath_def)
  have v: "isVulnFrame sampleStack ''vuln'' 1 2"
    by (simp add: isVulnFrame_def sampleStack_def pkgPath_def)
  have t': "isTopFrame deep samplePkgs 0"
    by (simp add: deep_def isTopFrame_def sampleStack_def samplePkgs_def pkgPath_def)
  have v': "isVulnFrame deep ''vuln'' 0 2"
    by (simp add: deep_def isVulnFrame_def sampleStack_def pkgPath_def)
  from summarizeCallStack_frames[of sampleStack samplePkgs plainString "''vuln''" 1 2] t v
  have "summarizeCallStack plainString sampleStack samplePkgs ''vuln'' =
     funcName plainString (Function (sampleStack ! 1)) @ '' calls ''
       @ funcName plainString (Function (sampleStack ! 2))"
    by simp
  then have a: "summarizeCallStack plainString sampleStack samplePkgs ''vuln'' = ''app.run calls vuln.Parse''"
    by (simp add: funcName_def TrimPrefix_def plainString_def sampleStack_def)
  from summarizeCallStack_frames[of deep samplePkgs plainString "''vuln''" 0 2] t' v'
  have "summarizeCallStack plainString deep samplePkgs ''vuln'' =
     funcName plainString (Function (deep ! 0)) @ '' calls ''
       @ funcName plainString (Function (deep ! 1)) @ '', which eventually calls ''
       @ funcName plainString (Function (deep ! 2))"
    by simp
  then have b: "summarizeCallStack plainString deep samplePkgs ''vuln'' =
      ''app.main calls lib.Do, which eventually calls vuln.Parse''"
    by (simp add: deep_def funcName_def TrimPrefix_def plainString_def sampleStack_def)
  from t v a t' v' b e1 t2 e2 show ?thesis unfolding deep_def by blast
qed

section \<open>Properties of the grouping by directory\<close>

lemma groupLoop_concat:
  "groupLoop fs result cur = (r, c) \<Longrightarrow> concat r @ c = concat result @ cur @ fs"
  by (induction fs arbitrary: result cur) (auto split: if_splits)

lemma groupLoop_cur_nonempty:
  "groupLoop fs result cur = (r, c) \<Longrightarrow> fs \<noteq> [] \<or> cur \<noteq> [] \<Longrightarrow> c \<noteq> []"
  by (induction fs arbitrary: result cur) (auto split: if_splits)

lemma sameDirectory_single: "sameDirectory [f]"
  by (simp add: sameDirectory_def)

lemma sameDirectory_snoc:
  "cur \<noteq> [] \<Longrightarrow> sameDirectory cur \<Longrightarrow> dirPath f = dirPath (cur ! 0) \<Longrightarrow> sameDirectory (cur @ [f])"
  unfolding sameDirectory_def by (auto simp: nth_append)

lemma grouped_snoc_new:
  assumes "grouped (result @ [cur])" "dirPath f \<noteq> dirPath (cur ! 0)"
  shows "grouped ((result @ [cur]) @ [[f]])"
proof -
  let ?P = "\<lambda>a b. dirPath (a ! 0) \<noteq> dirPath (b ! 0)"
  from assms(1) have s: "successively ?P (result @ [cur])"
    and b: "\<forall>g\<in>set (result @ [cur]). g \<noteq> [] \<and> sameDirectory g"
    unfolding grouped_def by blast+
  have "successively ?P ((result @ [cur]) @ [[f]])"
    using s assms(2) by (subst successively_append_iff) (simp cong del: successively_cong)
  moreover have "\<forall>g\<in>set ((result @ [cur]) @ [[f]]). g \<noteq> [] \<and> sameDirectory g"
    using b sameDirectory_single by simp
  ultimately show ?thesis unfolding grouped_def by blast
qed

lemma grouped_snoc_same:
  assumes "grouped (result @ [cur])" "dirPath f = dirPath (cur ! 0)"
  shows "grouped (result @ [cur @ [f]])"
proof -
  let ?P = "\<lambda>a b. dirPath (a ! 0) \<noteq> dirPath (b ! 0)"
  from assms(1) have s: "successively ?P (result @ [cur])"
    and b: "\<forall>g\<in>set result. g \<noteq> [] \<and> sameDirectory g"
    and c: "cur \<noteq> []" "sameDirectory cur"
    unfolding grouped_def by simp_all
  from c(1) have h: "(cur @ [f]) ! 0 = cur ! 0" by (simp add: nth_append)
  from s have "successively ?P result \<and> (result \<noteq> [] \<longrightarrow> ?P (last result) cur)"
    by (auto simp: successively_append_iff cong del: successively_cong)
  then have "successively ?P (result @ [cur @ [f]])"
    by (auto simp: successively_append_iff h cong del: successively_cong)
  moreover have "\<forall>g\<in>set (result @ [cur @ [f]]). g \<noteq> [] \<and> sameDirectory g"
    using b c sameDirectory_snoc[OF c assms(2)] by simp
  ultimately show ?thesis unfolding grouped_def by blast
qed

lemma groupLoop_grouped:
  "groupLoop fs result cur = (r, c) \<Longrightarrow> (cur = [] \<longrightarrow> result = []) \<Longrightarrow>
   (cur \<noteq> [] \<longrightarrow> grouped (result @ [cur])) \<Longrightarrow> c \<noteq> [] \<Longrightarrow> grouped (r @ [c])"
proof (induction fs arbitrary: result cur)
  case Nil
  then show ?case by auto
next
  case (Cons f fs)
  show ?case
  proof (cases "cur = []")
    case True
    with Cons.prems have "groupLoop fs [] [f] = (r, c)" by simp
    moreover have "grouped ([] @ [[f]])" by (simp add: grouped_def sameDirectory_single)
    ultimately show ?thesis using Cons.IH[of "[]" "[f]"] Cons.prems(4) by simp
  next
    case False
    with Cons.prems have g: "grouped (result @ [cur])" by simp
    show ?thesis
    proof (cases "dirPath f \<noteq> dirPath (cur ! 0)")
      case True
      with False Cons.prems have "groupLoop fs (result @ [cur]) [f] = (r, c)" by simp
      then show ?thesis
        using Cons.IH[of "result @ [cur]" "[f]"] grouped_snoc_new[OF g True] Cons.prems(4) by simp
    next
      case same: False
      with False Cons.prems have "groupLoop fs result (cur @ [f]) = (r, c)" by simp
      then show ?thesis
        using Cons.IH[of result "cur @ [f]"] grouped_snoc_same[OF g] same Cons.prems(4) by simp
    qed
  qed
qed

lemma seenLoop_None:
  "\<forall>g\<in>set gs. g \<noteq> [] \<Longrightarrow>
   seenLoop gs seen = None \<longleftrightarrow>
     distinct (map (\<lambda>g. dirPath (g ! 0)) gs) \<and> (\<forall>g\<in>set gs. \<not> seen (dirPath (g ! 0)))"
proof (induction gs arbitrary: seen)
  case Nil
  show ?case by simp
next
  case (Cons g gs)
  define d where "d = dirPath (g ! 0)"
  have ne: "g \<noteq> []" and rest: "\<forall>g\<in>set gs. g \<noteq> []" using Cons.prems by simp_all
  show ?case
  proof (cases "seen d")
    case True
    then show ?thesis using ne by (simp add: d_def)
  next
    case False
    have "seenLoop (g # gs) seen = seenLoop gs (seen(d := True))"
      using ne False by (simp add: d_def)
    also have "\<dots> = None \<longleftrightarrow>
        distinct (map (\<lambda>g. dirPath (g ! 0)) gs) \<and>
        (\<forall>h\<in>set gs. \<not> (seen(d := True)) (dirPath (h ! 0)))"
      by (rule Cons.IH[OF rest])
    finally show ?thesis using False unfolding d_def[symmetric]
      by (simp add: d_def[symmetric] image_iff) blast
  qed
qed

lemma seenLoop_Some:
  "\<forall>g\<in>set gs. g \<noteq> [] \<Longrightarrow> seenLoop gs seen = Some e \<Longrightarrow> \<exists>d. e = ErrNotContiguous d"
proof (induction gs arbitrary: seen)
  case Nil
  then show ?case by simp
next
  case (Cons g gs)
  show ?case
  proof (cases "seen (dirPath (g ! 0))")
    case True
    with Cons.prems show ?thesis by auto
  next
    case False
    with Cons.prems have "seenLoop gs (seen(dirPath (g ! 0) := True)) = Some e" by simp
    with Cons.IH Cons.prems(1) show ?thesis by simp
  qed
qed

lemma dropWhile_same_prefix:
  "\<forall>x\<in>set g. dirPath x = d \<Longrightarrow> (rest = [] \<or> dirPath (hd rest) \<noteq> d) \<Longrightarrow>
   dropWhile (\<lambda>x. dirPath x = d) (g @ rest) = rest"
proof (induction g)
  case Nil
  then show ?case by (cases rest) auto
next
  case (Cons x g)
  then show ?case by simp
qed

lemma contiguous_run:
  "g \<noteq> [] \<Longrightarrow> \<forall>x\<in>set g. dirPath x = d \<Longrightarrow> (rest = [] \<or> dirPath (hd rest) \<noteq> d) \<Longrightarrow>
   contiguousDirs (g @ rest) \<longleftrightarrow> d \<notin> dirPath ` set rest \<and> contiguousDirs rest"
proof (induction g)
  case Nil
  then show ?case by simp
next
  case (Cons x g)
  have xd: "dirPath x = d" using Cons.prems by simp
  have dw: "dropWhile (\<lambda>y. dirPath y = d) (g @ rest) = rest"
    using Cons.prems by (intro dropWhile_same_prefix) simp_all
  have step: "contiguousDirs ((x # g) @ rest) \<longleftrightarrow>
      d \<notin> dirPath ` set rest \<and> contiguousDirs (g @ rest)"
    using dw by (simp add: xd)
  show ?case
  proof (cases "g = []")
    case True
    then show ?thesis using step by simp
  next
    case False
    have "contiguousDirs (g @ rest) \<longleftrightarrow> d \<notin> dirPath ` set rest \<and> contiguousDirs rest"
      using Cons.prems False by (intro Cons.IH) simp_all
    then show ?thesis using step by blast
  qed
qed

lemma grouped_Cons:
  assumes "grouped (g # gs)"
  shows "grouped gs" "g \<noteq> []" "sameDirectory g" "gs = [] \<or> dirPath (hd gs ! 0) \<noteq> dirPath (g ! 0)"
proof -
  let ?P = "\<lambda>a b. dirPath (a ! 0) \<noteq> dirPath (b ! 0)"
  from assms have s: "successively ?P (g # gs)" and b: "\<forall>h\<in>set (g # gs). h \<noteq> [] \<and> sameDirectory h"
    unfolding grouped_def by blast+
  from s have s': "gs = [] \<or> ?P g (hd gs) \<and> successively ?P gs"
    by (subst (asm) successively_Cons) simp
  from b show "g \<noteq> []" "sameDirectory g" by simp_all
  from s' show "gs = [] \<or> dirPath (hd gs ! 0) \<noteq> dirPath (g ! 0)" by auto
  from s' have "successively ?P gs" by (cases gs) auto
  with b show "grouped gs" unfolding grouped_def by simp
qed

lemma grouped_dirs:
  assumes "grouped gs"
  shows "dirPath ` set (concat gs) = (\<lambda>g. dirPath (g ! 0)) ` set gs"
proof (intro set_eqI iffI)
  fix d assume "d \<in> dirPath ` set (concat gs)"
  then obtain x g where xg: "g \<in> set gs" "x \<in> set g" "d = dirPath x" by auto
  from xg(1) assms have "sameDirectory g" unfolding grouped_def by blast
  with xg(2) have "dirPath x = dirPath (g ! 0)" unfolding sameDirectory_def by metis
  with xg show "d \<in> (\<lambda>g. dirPath (g ! 0)) ` set gs" by auto
next
  fix d assume "d \<in> (\<lambda>g. dirPath (g ! 0)) ` set gs"
  then obtain g where g: "g \<in> set gs" "d = dirPath (g ! 0)" by auto
  with assms have "g \<noteq> []" unfolding grouped_def by blast
  then have "g ! 0 \<in> set g" by simp
  with g show "d \<in> dirPath ` set (concat gs)" by auto
qed

lemma grouped_contiguous:
  "grouped gs \<Longrightarrow> contiguousDirs (concat gs) \<longleftrightarrow> distinct (map (\<lambda>g. dirPath (g ! 0)) gs)"
proof (induction gs)
  case Nil
  then show ?case by simp
next
  case (Cons g gs)
  note parts = grouped_Cons[OF Cons.prems]
  have un: "\<forall>x\<in>set g. dirPath x = dirPath (g ! 0)"
    using parts(3) unfolding sameDirectory_def by metis
  have hdrest: "concat gs = [] \<or> dirPath (hd (concat gs)) \<noteq> dirPath (g ! 0)"
  proof (cases gs)
    case Nil
    then show ?thesis by simp
  next
    case (Cons h hs)
    with parts(1) have "h \<noteq> []" unfolding grouped_def by simp
    then have "hd (concat gs) = h ! 0" using Cons by (simp add: hd_conv_nth nth_append)
    with parts(4) Cons show ?thesis by simp
  qed
  have "contiguousDirs (g @ concat gs) \<longleftrightarrow>
      dirPath (g ! 0) \<notin> dirPath ` set (concat gs) \<and> contiguousDirs (concat gs)"
    by (rule contiguous_run[OF parts(2) un hdrest])
  then show ?case using Cons.IH[OF parts(1)] grouped_dirs[OF parts(1)] by simp
qed

lemma groupFiles_result:
  assumes "files \<noteq> []"
  obtains gs where "grouped gs" "concat gs = files"
    "groupFilesByDirectory files = (case seenLoop gs (\<lambda>d. False) of Some e \<Rightarrow> Inl e | None \<Rightarrow> Inr gs)"
proof -
  obtain r c where rc: "groupLoop files [] [] = (r, c)" by (cases "groupLoop files [] []")
  have c: "c \<noteq> []" using groupLoop_cur_nonempty[OF rc] assms by simp
  have g: "grouped (r @ [c])" using groupLoop_grouped[OF rc] c by simp
  have cc: "concat (r @ [c]) = files" using groupLoop_concat[OF rc] by simp
  have "groupFilesByDirectory files =
      (case seenLoop (r @ [c]) (\<lambda>d. False) of Some e \<Rightarrow> Inl e | None \<Rightarrow> Inr (r @ [c]))"
    using assms rc c by (simp add: groupFilesByDirectory_def Let_def)
  with g cc that show thesis by blast
qed

lemma groupFiles_ok_iff: "(\<exists>gs. groupFilesByDirectory files = Inr gs) \<longleftrightarrow> contiguousDirs files"
proof (cases "files = []")
  case True
  then show ?thesis by (simp add: groupFilesByDirectory_def)
next
  case False
  then obtain gs where gs: "grouped gs" "concat gs = files"
    "groupFilesByDirectory files = (case seenLoop gs (\<lambda>d. False) of Some e \<Rightarrow> Inl e | None \<Rightarrow> Inr gs)"
    by (rule groupFiles_result)
  have ne: "\<forall>g\<in>set gs. g \<noteq> []" using gs(1) by (simp add: grouped_def)
  have "(\<exists>gs'. groupFilesByDirectory files = Inr gs') \<longleftrightarrow> seenLoop gs (\<lambda>d. False) = None"
    unfolding gs(3) by (auto split: option.splits)
  also have "\<dots> \<longleftrightarrow> distinct (map (\<lambda>g. dirPath (g ! 0)) gs)"
    using seenLoop_None[OF ne, of "\<lambda>d. False"] by simp
  also have "\<dots> \<longleftrightarrow> contiguousDirs files"
    using grouped_contiguous[OF gs(1)] gs(2) by simp
  finally show ?thesis .
qed

lemma groupFiles_err: "groupFilesByDirectory files = Inl e \<Longrightarrow> \<exists>d. e = ErrNotContiguous d"
proof (cases "files = []")
  case True
  assume "groupFilesByDirectory files = Inl e"
  with True show ?thesis by (simp add: groupFilesByDirectory_def)
next
  case False
  assume a: "groupFilesByDirectory files = Inl e"
  from False obtain gs where gs: "grouped gs" "concat gs = files"
    "groupFilesByDirectory files = (case seenLoop gs (\<lambda>d. False) of Some e \<Rightarrow> Inl e | None \<Rightarrow> Inr gs)"
    by (rule groupFiles_result)
  have ne: "\<forall>g\<in>set gs. g \<noteq> []" using gs(1) by (simp add: grouped_def)
  from a gs(3) have "seenLoop gs (\<lambda>d. False) = Some e" by (auto split: option.splits)
  then show ?thesis using seenLoop_Some[OF ne] by blast
qed

lemma groupFiles_groups:
  assumes "groupFilesByDirectory files = Inr groups"
  shows "concat groups = files \<and> grouped groups"
proof (cases "files = []")
  case True
  with assms show ?thesis by (auto simp: groupFilesByDirectory_def grouped_def)
next
  case False
  then obtain gs where gs: "grouped gs" "concat gs = files"
    "groupFilesByDirectory files = (case seenLoop gs (\<lambda>d. False) of Some e \<Rightarrow> Inl e | None \<Rightarrow> Inr gs)"
    by (rule groupFiles_result)
  from assms gs(3) have "groups = gs" by (auto split: option.splits)
  with gs show ?thesis by simp
qed

text \<open>
  \<open>contiguousDirs\<close> in terms of positions: no file of another directory lies between
  two files of the same directory.
\<close>

lemma comes_back_iff:
  "d \<notin> g ` set (dropWhile (\<lambda>x. g x = d) xs) \<longleftrightarrow>
   (\<forall>j k. j < k \<and> k < length xs \<and> g (xs ! k) = d \<longrightarrow> g (xs ! j) = d)"
proof (induction xs)
  case Nil
  show ?case by simp
next
  case (Cons x xs)
  show ?case
  proof (cases "g x = d")
    case True
    have "(\<forall>j k. j < k \<and> k < length (x # xs) \<and> g ((x # xs) ! k) = d \<longrightarrow> g ((x # xs) ! j) = d)
        \<longleftrightarrow> (\<forall>j k. j < k \<and> k < length xs \<and> g (xs ! k) = d \<longrightarrow> g (xs ! j) = d)"
    proof (intro iffI allI impI)
      fix j k assume a: "\<forall>j k. j < k \<and> k < length (x # xs) \<and> g ((x # xs) ! k) = d \<longrightarrow> g ((x # xs) ! j) = d"
        and b: "j < k \<and> k < length xs \<and> g (xs ! k) = d"
      from a[rule_format, of "Suc j" "Suc k"] b show "g (xs ! j) = d" by simp
    next
      fix j k assume a: "\<forall>j k. j < k \<and> k < length xs \<and> g (xs ! k) = d \<longrightarrow> g (xs ! j) = d"
        and b: "j < k \<and> k < length (x # xs) \<and> g ((x # xs) ! k) = d"
      show "g ((x # xs) ! j) = d"
      proof (cases j)
        case 0
        with True show ?thesis by simp
      next
        case (Suc j')
        with b obtain k' where k': "k = Suc k'" by (cases k) auto
        from a[rule_format, of j' k'] b Suc k' show ?thesis by simp
      qed
    qed
    with Cons.IH True show ?thesis by simp
  next
    case False
    have "(\<forall>j k. j < k \<and> k < length (x # xs) \<and> g ((x # xs) ! k) = d \<longrightarrow> g ((x # xs) ! j) = d)
        \<longleftrightarrow> d \<notin> g ` set xs"
    proof (intro iffI)
      assume a: "\<forall>j k. j < k \<and> k < length (x # xs) \<and> g ((x # xs) ! k) = d \<longrightarrow> g ((x # xs) ! j) = d"
      show "d \<notin> g ` set xs"
      proof
        assume "d \<in> g ` set xs"
        then obtain k where "k < length xs" "g (xs ! k) = d" by (auto simp: in_set_conv_nth)
        with a[rule_format, of 0 "Suc k"] False show False by simp
      qed
    next
      assume n: "d \<notin> g ` set xs"
      show "\<forall>j k. j < k \<and> k < length (x # xs) \<and> g ((x # xs) ! k) = d \<longrightarrow> g ((x # xs) ! j) = d"
      proof (intro allI impI)
        fix j k assume b: "j < k \<and> k < length (x # xs) \<and> g ((x # xs) ! k) = d"
        then obtain k' where k': "k = Suc k'" by (cases k) auto
        with b have "k' < length xs" "g (xs ! k') = d" by simp_all
        then have "d \<in> g ` set xs" by (metis imageI nth_mem)
        with n show "g ((x # xs) ! j) = d" by simp
      qed
    qed
    with False show ?thesis by simp
  qed
qed

lemma contiguousDirs_iff:
  "contiguousDirs fs \<longleftrightarrow>
   (\<forall>i j k. i < j \<and> j < k \<and> k < length fs \<and> dirPath (fs ! i) = dirPath (fs ! k)
      \<longrightarrow> dirPath (fs ! j) = dirPath (fs ! i))"
proof (induction fs)
  case Nil
  show ?case by simp
next
  case (Cons f fs)
  let ?P = "\<lambda>xs. \<forall>i j k. i < j \<and> j < k \<and> k < length xs \<and> dirPath (xs ! i) = dirPath (xs ! k)
      \<longrightarrow> dirPath (xs ! j) = dirPath (xs ! i)"
  let ?Q = "\<forall>j k. j < k \<and> k < length fs \<and> dirPath (fs ! k) = dirPath f \<longrightarrow> dirPath (fs ! j) = dirPath f"
  have "?P (f # fs) \<longleftrightarrow> ?Q \<and> ?P fs"
  proof (intro iffI conjI allI impI)
    fix j k assume a: "?P (f # fs)" and b: "j < k \<and> k < length fs \<and> dirPath (fs ! k) = dirPath f"
    from a[rule_format, of 0 "Suc j" "Suc k"] b show "dirPath (fs ! j) = dirPath f" by simp
  next
    fix i j k assume a: "?P (f # fs)"
      and b: "i < j \<and> j < k \<and> k < length fs \<and> dirPath (fs ! i) = dirPath (fs ! k)"
    from a[rule_format, of "Suc i" "Suc j" "Suc k"] b show "dirPath (fs ! j) = dirPath (fs ! i)" by simp
  next
    fix i j k assume a: "?Q \<and> ?P fs"
      and b: "i < j \<and> j < k \<and> k < length (f # fs) \<and> dirPath ((f # fs) ! i) = dirPath ((f # fs) ! k)"
    from b obtain j' k' where jk: "j = Suc j'" "k = Suc k'" by (cases j; cases k) auto
    show "dirPath ((f # fs) ! j) = dirPath ((f # fs) ! i)"
    proof (cases i)
      case 0
      from a have q: ?Q by blast
      from q[rule_format, of j' k'] b jk 0 show ?thesis by simp
    next
      case (Suc i')
      from a have p: "?P fs" by blast
      from p[rule_format, of i' j' k'] b jk Suc show ?thesis by simp
    qed
  qed
  then show ?case using Cons.IH comes_back_iff[of "dirPath f" dirPath fs] by simp
qed

text \<open>
  Claim C8. When the files of some directory do not form a single run,
  \<open>groupFilesByDirectory\<close> returns the error that names a directory as not contiguous,
  and no grouping; when the files of every directory are contiguous it returns a grouping.
  This holds for every list of files, sorted or not.
\<close>

theorem groupFilesByDirectory_contiguous:
  "(\<not> contiguousDirs files \<longrightarrow> (\<exists>d. groupFilesByDirectory files = Inl (ErrNotContiguous d))) \<and>
   (contiguousDirs files \<longrightarrow> (\<exists>groups. groupFilesByDirectory files = Inr groups))"
proof (intro conjI impI)
  assume n: "\<not> contiguousDirs files"
  then have "\<not> (\<exists>groups. groupFilesByDirectory files = Inr groups)"
    by (simp add: groupFiles_ok_iff)
  then obtain e where e: "groupFilesByDirectory files = Inl e"
    by (cases "groupFilesByDirectory files") auto
  from groupFiles_err[OF e] e show "\<exists>d. groupFilesByDirectory files = Inl (ErrNotContiguous d)"
    by auto
next
  assume "contiguousDirs files"
  then show "\<exists>groups. groupFilesByDirectory files = Inr groups"
    by (simp add: groupFiles_ok_iff)
qed

theorem groupFilesByDirectory_contiguous_witness:
  "\<not> contiguousDirs [fileIn ''a'' ''f1'', fileIn ''b'' ''f1'', fileIn ''a'' ''f2''] \<and>
   (\<exists>d. groupFilesByDirectory [fileIn ''a'' ''f1'', fileIn ''b'' ''f1'', fileIn ''a'' ''f2'']
     = Inl (ErrNotContiguous d)) \<and>
   contiguousDirs [fileIn ''a'' ''f1'', fileIn ''a'' ''f2'', fileIn ''b'' ''f1''] \<and>
   (\<exists>groups. groupFilesByDirectory [fileIn ''a'' ''f1'', fileIn ''a'' ''f2'', fileIn ''b'' ''f1'']
     = Inr groups)"
proof -
  have n: "\<not> contiguousDirs [fileIn ''a'' ''f1'', fileIn ''b'' ''f1'', fileIn ''a'' ''f2'']"
    by (simp add: fileIn_def)
  have c: "contiguousDirs [fileIn ''a'' ''f1'', fileIn ''a'' ''f2'', fileIn ''b'' ''f1'']"
    by (simp add: fileIn_def)
  from n groupFilesByDirectory_contiguous[of "[fileIn ''a'' ''f1'', fileIn ''b'' ''f1'', fileIn ''a'' ''f2'']"]
  have e: "\<exists>d. groupFilesByDirectory [fileIn ''a'' ''f1'', fileIn ''b'' ''f1'', fileIn ''a'' ''f2'']
      = Inl (ErrNotContiguous d)"
    by blast
  from c groupFilesByDirectory_contiguous[of "[fileIn ''a'' ''f1'', fileIn ''a'' ''f2'', fileIn ''b'' ''f1'']"]
  have g: "\<exists>groups. groupFilesByDirectory [fileIn ''a'' ''f1'', fileIn ''a'' ''f2'', fileIn ''b'' ''f1'']
      = Inr groups"
    by blast
  from n e c g show ?thesis by blast
qed

lemma groupFilesByDirectory_test_error:
  "groupFilesByDirectory [fileIn ''a'' ''f1'', fileIn ''b'' ''f1'', fileIn ''a'' ''f2'']
     = Inl (ErrNotContiguous ''a'')"
  by (simp add: groupFilesByDirectory_def fileIn_def)

text \<open>
  Claim C10. When \<open>groupFilesByDirectory\<close> succeeds, the groups concatenated in order
  are the input list, every group is non-empty, and the files of a group share one
  directory path.
\<close>

theorem groupFilesByDirectory_partition:
  "groupFilesByDirectory files = Inr groups \<Longrightarrow>
   concat groups = files \<and> (\<forall>g\<in>set groups. g \<noteq> [] \<and> sameDirectory g)"
  using groupFiles_groups[of files groups] unfolding grouped_def by blast

theorem groupFilesByDirectory_partition_witness:
  "groupFilesByDirectory
     [fileIn ''a'' ''f1'', fileIn ''a'' ''f2'', fileIn ''b'' ''f1'', fileIn ''c'' ''f1'', fileIn ''c'' ''f2'']
     = Inr [[fileIn ''a'' ''f1'', fileIn ''a'' ''f2''], [fileIn ''b'' ''f1''],
            [fileIn ''c'' ''f1'', fileIn ''c'' ''f2'']] \<and>
   concat [[fileIn ''a'' ''f1'', fileIn ''a'' ''f2''], [fileIn ''b'' ''f1''],
           [fileIn ''c'' ''f1'', fileIn ''c'' ''f2'']]
     = [fileIn ''a'' ''f1'', fileIn ''a'' ''f2'', fileIn ''b'' ''f1'', fileIn ''c'' ''f1'', fileIn ''c'' ''f2''] \<and>
   sameDirectory [fileIn ''a'' ''f1'', fileIn ''a'' ''f2''] \<and> sameDirectory [fileIn ''b'' ''f1''] \<and>
   sameDirectory [fileIn ''c'' ''f1'', fileIn ''c'' ''f2'']"
proof -
  have g: "groupFilesByDirectory
     [fileIn ''a'' ''f1'', fileIn ''a'' ''f2'', fileIn ''b'' ''f1'', fileIn ''c'' ''f1'', fileIn ''c'' ''f2'']
     = Inr [[fileIn ''a'' ''f1'', fileIn ''a'' ''f2''], [fileIn ''b'' ''f1''],
            [fileIn ''c'' ''f1'', fileIn ''c'' ''f2'']]"
    by (simp add: groupFilesByDirectory_def fileIn_def)
  from groupFilesByDirectory_partition[OF g] g show ?thesis by simp
qed

section \<open>Properties of the updater\<close>

subsection \<open>One CVE file\<close>

lemma find_replace:
  "k \<in> ID ` set rs \<Longrightarrow> ID m = k \<Longrightarrow>
   find (\<lambda>r. ID r = k) (map (\<lambda>x. if ID x = k then m else x) rs) = Some m"
  by (induction rs) auto

lemma find_snoc_new:
  "ID r \<notin> ID ` set rs \<Longrightarrow> find (\<lambda>x. ID x = ID r) (rs @ [r]) = Some r"
  by (induction rs) auto

lemma SetCVERecord_stored:
  "SetCVERecord m w = Inr w' \<Longrightarrow> storedRecord w' (ID m) = Some m"
  by (auto simp: SetCVERecord_def storedRecord_def find_replace split: option.splits if_splits)

lemma CreateCVERecord_stored:
  "CreateCVERecord r w = Inr w' \<Longrightarrow> storedRecord w' (ID r) = Some r"
  by (auto simp: CreateCVERecord_def storedRecord_def find_snoc_new split: option.splits if_splits)

lemma SetCVERecord_frame:
  "SetCVERecord m w = Inr w' \<Longrightarrow>
   dirHashes w' = dirHashes w \<and> fault w' = fault w \<and> numTransactions w' = numTransactions w \<and>
   triaged w' = triaged w \<and> issues w' = issues w \<and> clock w' = clock w"
  by (auto simp: SetCVERecord_def split: option.splits if_splits)

lemma CreateCVERecord_frame:
  "CreateCVERecord r w = Inr w' \<Longrightarrow>
   dirHashes w' = dirHashes w \<and> fault w' = fault w \<and> numTransactions w' = numTransactions w \<and>
   triaged w' = triaged w \<and> issues w' = issues w \<and> clock w' = clock w"
  by (auto simp: CreateCVERecord_def split: option.splits if_splits)

lemma triageStep_frame:
  "triageStep u cve w = (r, w1) \<Longrightarrow>
   dirHashes w1 = dirHashes w \<and> fault w1 = fault w \<and> numTransactions w1 = numTransactions w \<and>
   cveRecords w1 = cveRecords w \<and> issues w1 = issues w \<and> clock w1 = clock w"
  by (auto simp: triageStep_def split: if_splits)

lemma handleCVE_existing:
  assumes "repo u (blobHash f) = Inr raw" "jsonDecode lib raw = Inr cve"
    "triageStep u cve w = (Inr result, w1)"
  shows "handleCVE lib u f (Some old) w =
    (case modifiedRecord lib u f cve (pathJoin lib (dirPath f) (filename f)) result old of
       Inl e \<Rightarrow> (Inl e, w1)
     | Inr md \<Rightarrow> (case SetCVERecord md w1 of Inl e \<Rightarrow> (Inl e, w1) | Inr w2 \<Rightarrow> (Inr False, w2)))"
  by (simp add: handleCVE_def assms Let_def)

lemma handleCVE_new:
  assumes "repo u (blobHash f) = Inr raw" "jsonDecode lib raw = Inr cve"
    "triageStep u cve w = (Inr result, w1)"
  shows "handleCVE lib u f None w =
    (case CreateCVERecord (newRecord u f cve (pathJoin lib (dirPath f) (filename f)) result) w1 of
       Inl e \<Rightarrow> (Inl e, w1) | Inr w2 \<Rightarrow> (Inr True, w2))"
  by (simp add: handleCVE_def assms Let_def)

lemma modifiedRecord_fields:
  assumes "modifiedRecord lib u f cve pathname result old = Inr md"
  shows "ID md = ID old" "Path md = pathname" "BlobHash md = hashString (blobHash f)"
    "CVEState md = cve_State cve" "CommitHash md = hashString (commitHash u)"
    "IssueReference md = IssueReference old" "IssueCreatedAt md = IssueCreatedAt old"
  using assms
  by (auto simp: modifiedRecord_def Let_def split: TriageState.splits option.splits)

lemma modifiedRecord_NoActionNeeded:
  "TriageState old = TriageStateNoActionNeeded \<Longrightarrow>
   modifiedRecord lib u f cve pathname result old = Inr md \<Longrightarrow>
   (result \<noteq> None \<longrightarrow> TriageState md = TriageStateNeedsIssue \<and> Module md = modulePath (the result)) \<and>
   (result = None \<longrightarrow> TriageState md = TriageStateNoActionNeeded \<and>
      TriageStateReason md = TriageStateReason old \<and> Module md = Module old)"
  by (auto simp: modifiedRecord_def Let_def split: option.splits)

lemma modifiedRecord_NeedsIssue:
  "TriageState old = TriageStateNeedsIssue \<Longrightarrow>
   modifiedRecord lib u f cve pathname result old = Inr md \<Longrightarrow>
   (result = None \<longrightarrow> TriageState md = TriageStateNoActionNeeded \<and> Module md = '''' \<and> CVE md = None \<and>
      TriageStateReason md = TriageStateReason old) \<and>
   (result \<noteq> None \<longrightarrow> TriageState md = TriageStateNeedsIssue \<and> Module md = Module old)"
  by (auto simp: modifiedRecord_def Let_def split: option.splits)

lemma modifiedRecord_issued:
  "TriageState old = TriageStateIssueCreated \<or> TriageState old = TriageStateUpdatedSinceIssueCreation \<Longrightarrow>
   modifiedRecord lib u f cve pathname result old = Inr md \<Longrightarrow>
   TriageState md = TriageStateUpdatedSinceIssueCreation \<and>
   TriageStateReason md = ''CVE changed; affected module = ''
      @ quote lib (case result of Some res \<Rightarrow> modulePath res | None \<Rightarrow> '''')"
  by (auto simp: modifiedRecord_def Let_def split: option.splits)



lemmas toy_eval =
  handleCVE_def triageStep_def modifiedRecord_def newRecord_def NewCVERecord_def
  SetCVERecord_def CreateCVERecord_def storedRecord_def hashString_def hexDigit_def
  toyLib_def toyUpdater_def toyRecord_def toyWorld_def toyFile_def StatePublic_def

lemma modifiedRecord_named:
  "\<forall>s. TriageState old \<noteq> TriageStateOther s \<Longrightarrow>
   \<exists>md. modifiedRecord lib u f cve pathname result old = Inr md"
  by (cases "TriageState old") (auto simp: modifiedRecord_def Let_def split: option.splits)

lemma SetCVERecord_succeeds:
  "ID md \<in> ID ` set (cveRecords w) \<Longrightarrow> fault w (OpSetCVERecord md) = None \<Longrightarrow>
   \<exists>w'. SetCVERecord md w = Inr w'"
  by (simp add: SetCVERecord_def)



subsection \<open>Known vulnerabilities\<close>

lemma triageStep_known:
  "knownIDs u (cve_ID cve) \<Longrightarrow> triageStep u cve w = (Inr None, w)"
  by (simp add: triageStep_def)

lemma handleCVE_triaged:
  assumes "repo u (blobHash f) = Inr raw" "jsonDecode lib raw = Inr cve" "knownIDs u (cve_ID cve)"
  shows "triaged (snd (handleCVE lib u f old w)) = triaged w"
proof (cases old)
  case None
  show ?thesis
    unfolding None handleCVE_new[OF assms(1,2) triageStep_known[OF assms(3)]]
    by (auto split: sum.splits dest: CreateCVERecord_frame)
next
  case (Some o)
  show ?thesis
    unfolding Some handleCVE_existing[OF assms(1,2) triageStep_known[OF assms(3)]]
    by (auto split: sum.splits dest: SetCVERecord_frame)
qed

text \<open>
  Claim C6, as stated, gives every record of a known ID the state NoActionNeeded and the
  reason "already in vuln DB", also on an update. The reason is only set where a record
  is created: a stored record of the known CVE-2020-9283 in state IssueCreated, whose
  blob changes, comes out in state UpdatedSinceIssueCreation with the reason of a changed
  CVE.
\<close>

theorem handleCVE_known_counterexample:
  "knownIDs toyUpdater ''CVE-2020-9283'' \<and>
   repo toyUpdater (blobHash (toyFile ''CVE-2020-9283.json'' [2])) = Inr ''CVE-2020-9283'' \<and>
   jsonDecode toyLib ''CVE-2020-9283''
     = Inr \<lparr>cve_ID = ''CVE-2020-9283'', cve_State = ''PUBLIC'', cve_Description = []\<rparr> \<and>
   storedRecord
     (snd (handleCVE toyLib toyUpdater (toyFile ''CVE-2020-9283.json'' [2])
             (Some (toyRecord ''CVE-2020-9283'' TriageStateIssueCreated))
             (toyWorld [toyRecord ''CVE-2020-9283'' TriageStateIssueCreated])))
     ''CVE-2020-9283''
   = Some \<lparr>ID = ''CVE-2020-9283'', Path = ''2021/0xxx/CVE-2020-9283.json'', BlobHash = ''02'',
           CommitHash = ''ab'', CVEState = ''PUBLIC'',
           TriageState = TriageStateUpdatedSinceIssueCreation,
           TriageStateReason = ''CVE changed; affected module = \"\"'', Module = '''', CVE = None,
           IssueReference = '''', IssueCreatedAt = 0\<rparr>"
  by (simp add: toy_eval)

lemma CreateCVERecord_succeeds:
  "ID cr \<notin> ID ` set (cveRecords w) \<Longrightarrow> fault w (OpCreateCVERecord cr) = None \<Longrightarrow>
   \<exists>w'. CreateCVERecord cr w = Inr w'"
  by (simp add: CreateCVERecord_def)

text \<open>
  Claim C6, amended. For a CVE file whose parsed ID is known, the triage function is not
  called. With no stored record, the update is the creation of one record of that ID in
  state NoActionNeeded with the reason "already in vuln DB": it fails only as the
  creation fails, and succeeds whenever the store holds no record of the ID and does not
  fail on the creation. With a stored record in one of the four named states, the
  update is the write of one modified record of the same ID, which follows the triage
  state machine as for any CVE without a module: from NoActionNeeded or NeedsIssue it is
  in NoActionNeeded, and from IssueCreated or UpdatedSinceIssueCreation it is in
  UpdatedSinceIssueCreation with the reason recording an empty module; the update fails
  only as that write fails, and succeeds whenever the store holds a record of the ID and
  does not fail on the write. After a successful update the store holds that record.
\<close>

theorem handleCVE_known:
  assumes blob: "repo u (blobHash f) = Inr raw"
    and dec: "jsonDecode lib raw = Inr cve"
    and known: "knownIDs u (cve_ID cve)"
  shows
   "triaged (snd (handleCVE lib u f old w)) = triaged w \<and>
    (\<exists>cr. ID cr = cve_ID cve \<and> TriageState cr = TriageStateNoActionNeeded \<and>
       TriageStateReason cr = ''already in vuln DB'' \<and>
       handleCVE lib u f None w =
         (case CreateCVERecord cr w of
            Inl e \<Rightarrow> (Inl e, w)
          | Inr w2 \<Rightarrow> (Inr True, w2))) \<and>
    (cve_ID cve \<notin> ID ` set (cveRecords w) \<and> (\<forall>r. fault w (OpCreateCVERecord r) = None) \<longrightarrow>
       fst (handleCVE lib u f None w) = Inr True) \<and>
    (\<forall>ex. (\<forall>s. TriageState ex \<noteq> TriageStateOther s) \<longrightarrow>
       (\<exists>md. ID md = ID ex \<and>
          (TriageState ex = TriageStateNoActionNeeded \<or> TriageState ex = TriageStateNeedsIssue \<longrightarrow>
             TriageState md = TriageStateNoActionNeeded) \<and>
          (TriageState ex = TriageStateIssueCreated \<or>
           TriageState ex = TriageStateUpdatedSinceIssueCreation \<longrightarrow>
             TriageState md = TriageStateUpdatedSinceIssueCreation \<and>
             TriageStateReason md = ''CVE changed; affected module = '' @ quote lib '''') \<and>
          handleCVE lib u f (Some ex) w =
            (case SetCVERecord md w of
               Inl e \<Rightarrow> (Inl e, w)
             | Inr w2 \<Rightarrow> (Inr False, w2)))) \<and>
    (\<forall>ex. (\<forall>s. TriageState ex \<noteq> TriageStateOther s) \<and> ID ex \<in> ID ` set (cveRecords w) \<and>
       (\<forall>r. fault w (OpSetCVERecord r) = None) \<longrightarrow>
       fst (handleCVE lib u f (Some ex) w) = Inr False) \<and>
    (\<forall>added w'. handleCVE lib u f None w = (Inr added, w') \<longrightarrow>
       added \<and>
       (\<exists>cr. storedRecord w' (cve_ID cve) = Some cr \<and>
          TriageState cr = TriageStateNoActionNeeded \<and>
          TriageStateReason cr = ''already in vuln DB'')) \<and>
    (\<forall>ex added w'. handleCVE lib u f (Some ex) w = (Inr added, w') \<longrightarrow>
       \<not> added \<and>
       (\<exists>md. storedRecord w' (ID ex) = Some md \<and>
          (TriageState ex = TriageStateNoActionNeeded \<or> TriageState ex = TriageStateNeedsIssue \<longrightarrow>
             TriageState md = TriageStateNoActionNeeded) \<and>
          (TriageState ex = TriageStateIssueCreated \<or>
           TriageState ex = TriageStateUpdatedSinceIssueCreation \<longrightarrow>
             TriageState md = TriageStateUpdatedSinceIssueCreation \<and>
             TriageStateReason md = ''CVE changed; affected module = '' @ quote lib '''')))"
proof (intro conjI allI impI)
  show "triaged (snd (handleCVE lib u f old w)) = triaged w"
    by (rule handleCVE_triaged[OF blob dec known])
next
  let ?cr = "newRecord u f cve (pathJoin lib (dirPath f) (filename f)) None"
  have "ID ?cr = cve_ID cve" "TriageState ?cr = TriageStateNoActionNeeded"
    "TriageStateReason ?cr = ''already in vuln DB''"
    using known by (simp_all add: newRecord_def NewCVERecord_def Let_def)
  moreover have "handleCVE lib u f None w =
      (case CreateCVERecord ?cr w of Inl e \<Rightarrow> (Inl e, w) | Inr w2 \<Rightarrow> (Inr True, w2))"
    by (rule handleCVE_new[OF blob dec triageStep_known[OF known]])
  ultimately show "\<exists>cr. ID cr = cve_ID cve \<and> TriageState cr = TriageStateNoActionNeeded \<and>
       TriageStateReason cr = ''already in vuln DB'' \<and>
       handleCVE lib u f None w =
         (case CreateCVERecord cr w of
            Inl e \<Rightarrow> (Inl e, w)
          | Inr w2 \<Rightarrow> (Inr True, w2))"
    by blast
next
  assume c: "cve_ID cve \<notin> ID ` set (cveRecords w) \<and> (\<forall>r. fault w (OpCreateCVERecord r) = None)"
  let ?cr = "newRecord u f cve (pathJoin lib (dirPath f) (filename f)) None"
  have "ID ?cr = cve_ID cve" by (simp add: newRecord_def NewCVERecord_def Let_def)
  with c have "ID ?cr \<notin> ID ` set (cveRecords w)" "fault w (OpCreateCVERecord ?cr) = None"
    by simp_all
  from CreateCVERecord_succeeds[OF this] obtain w2 where "CreateCVERecord ?cr w = Inr w2" by blast
  then show "fst (handleCVE lib u f None w) = Inr True"
    by (simp add: handleCVE_new[OF blob dec triageStep_known[OF known]])
next
  fix ex :: CVERecord assume named: "\<forall>s. TriageState ex \<noteq> TriageStateOther s"
  let ?p = "pathJoin lib (dirPath f) (filename f)"
  from modifiedRecord_named[OF named] obtain md
    where md: "modifiedRecord lib u f cve ?p None ex = Inr md" by blast
  have eq: "handleCVE lib u f (Some ex) w =
      (case SetCVERecord md w of Inl e \<Rightarrow> (Inl e, w) | Inr w2 \<Rightarrow> (Inr False, w2))"
    by (simp add: handleCVE_existing[OF blob dec triageStep_known[OF known]] md)
  have "ID md = ID ex" by (rule modifiedRecord_fields(1)[OF md])
  moreover have "TriageState ex = TriageStateNoActionNeeded \<or> TriageState ex = TriageStateNeedsIssue \<longrightarrow>
             TriageState md = TriageStateNoActionNeeded"
    using modifiedRecord_NoActionNeeded[OF _ md] modifiedRecord_NeedsIssue[OF _ md] by auto
  moreover have "TriageState ex = TriageStateIssueCreated \<or>
           TriageState ex = TriageStateUpdatedSinceIssueCreation \<longrightarrow>
             TriageState md = TriageStateUpdatedSinceIssueCreation \<and>
             TriageStateReason md = ''CVE changed; affected module = '' @ quote lib ''''"
    using modifiedRecord_issued[OF _ md] by auto
  ultimately show "\<exists>md. ID md = ID ex \<and>
          (TriageState ex = TriageStateNoActionNeeded \<or> TriageState ex = TriageStateNeedsIssue \<longrightarrow>
             TriageState md = TriageStateNoActionNeeded) \<and>
          (TriageState ex = TriageStateIssueCreated \<or>
           TriageState ex = TriageStateUpdatedSinceIssueCreation \<longrightarrow>
             TriageState md = TriageStateUpdatedSinceIssueCreation \<and>
             TriageStateReason md = ''CVE changed; affected module = '' @ quote lib '''') \<and>
          handleCVE lib u f (Some ex) w =
            (case SetCVERecord md w of
               Inl e \<Rightarrow> (Inl e, w)
             | Inr w2 \<Rightarrow> (Inr False, w2))"
    using eq by blast
next
  fix ex :: CVERecord
  assume c: "(\<forall>s. TriageState ex \<noteq> TriageStateOther s) \<and> ID ex \<in> ID ` set (cveRecords w) \<and>
       (\<forall>r. fault w (OpSetCVERecord r) = None)"
  let ?p = "pathJoin lib (dirPath f) (filename f)"
  from c modifiedRecord_named obtain md
    where md: "modifiedRecord lib u f cve ?p None ex = Inr md" by blast
  have "ID md \<in> ID ` set (cveRecords w)" "fault w (OpSetCVERecord md) = None"
    using c modifiedRecord_fields(1)[OF md] by simp_all
  from SetCVERecord_succeeds[OF this] obtain w2 where "SetCVERecord md w = Inr w2" by blast
  then show "fst (handleCVE lib u f (Some ex) w) = Inr False"
    by (simp add: handleCVE_existing[OF blob dec triageStep_known[OF known]] md)
next
  fix added w' assume h: "handleCVE lib u f None w = (Inr added, w')"
  let ?cr = "newRecord u f cve (pathJoin lib (dirPath f) (filename f)) None"
  from h have cr: "CreateCVERecord ?cr w = Inr w'" and ad: "added"
    unfolding handleCVE_new[OF blob dec triageStep_known[OF known]] by (auto split: sum.splits)
  show "added" by (rule ad)
  have id: "ID ?cr = cve_ID cve" and st: "TriageState ?cr = TriageStateNoActionNeeded"
    and rs: "TriageStateReason ?cr = ''already in vuln DB''"
    using known by (simp_all add: newRecord_def NewCVERecord_def Let_def)
  from CreateCVERecord_stored[OF cr] id st rs
  show "\<exists>cr. storedRecord w' (cve_ID cve) = Some cr \<and>
          TriageState cr = TriageStateNoActionNeeded \<and>
          TriageStateReason cr = ''already in vuln DB''"
    by auto
next
  fix ex added w' assume h: "handleCVE lib u f (Some ex) w = (Inr added, w')"
  let ?p = "pathJoin lib (dirPath f) (filename f)"
  from h obtain md where md: "modifiedRecord lib u f cve ?p None ex = Inr md"
    and st: "SetCVERecord md w = Inr w'" and ad: "\<not> added"
    unfolding handleCVE_existing[OF blob dec triageStep_known[OF known]] by (auto split: sum.splits)
  show "\<not> added" by (rule ad)
  have "storedRecord w' (ID ex) = Some md"
    using SetCVERecord_stored[OF st] modifiedRecord_fields(1)[OF md] by simp
  then show "\<exists>md. storedRecord w' (ID ex) = Some md \<and>
          (TriageState ex = TriageStateNoActionNeeded \<or> TriageState ex = TriageStateNeedsIssue \<longrightarrow>
             TriageState md = TriageStateNoActionNeeded) \<and>
          (TriageState ex = TriageStateIssueCreated \<or>
           TriageState ex = TriageStateUpdatedSinceIssueCreation \<longrightarrow>
             TriageState md = TriageStateUpdatedSinceIssueCreation \<and>
             TriageStateReason md = ''CVE changed; affected module = '' @ quote lib '''')"
    using modifiedRecord_NoActionNeeded[OF _ md] modifiedRecord_NeedsIssue[OF _ md]
      modifiedRecord_issued[OF _ md]
    by auto
qed

theorem handleCVE_known_witness:
  "repo toyUpdater (blobHash (toyFile ''CVE-2020-9283.json'' [2])) = Inr ''CVE-2020-9283'' \<and>
   jsonDecode toyLib ''CVE-2020-9283''
     = Inr \<lparr>cve_ID = ''CVE-2020-9283'', cve_State = ''PUBLIC'', cve_Description = []\<rparr> \<and>
   knownIDs toyUpdater ''CVE-2020-9283'' \<and>
   triaged (snd (handleCVE toyLib toyUpdater (toyFile ''CVE-2020-9283.json'' [2]) None (toyWorld []))) = [] \<and>
   fst (handleCVE toyLib toyUpdater (toyFile ''CVE-2020-9283.json'' [2]) None (toyWorld [])) = Inr True \<and>
   (\<exists>cr. storedRecord
            (snd (handleCVE toyLib toyUpdater (toyFile ''CVE-2020-9283.json'' [2]) None (toyWorld [])))
            ''CVE-2020-9283'' = Some cr \<and>
         TriageState cr = TriageStateNoActionNeeded \<and>
         TriageStateReason cr = ''already in vuln DB'') \<and>
   fst (handleCVE toyLib toyUpdater (toyFile ''CVE-2020-9283.json'' [2])
          (Some (toyRecord ''CVE-2020-9283'' TriageStateNeedsIssue))
          (toyWorld [toyRecord ''CVE-2020-9283'' TriageStateNeedsIssue])) = Inr False \<and>
   (\<exists>md. storedRecord
            (snd (handleCVE toyLib toyUpdater (toyFile ''CVE-2020-9283.json'' [2])
                    (Some (toyRecord ''CVE-2020-9283'' TriageStateNeedsIssue))
                    (toyWorld [toyRecord ''CVE-2020-9283'' TriageStateNeedsIssue])))
            ''CVE-2020-9283'' = Some md \<and>
         TriageState md = TriageStateNoActionNeeded) \<and>
   fst (handleCVE toyLib toyUpdater (toyFile ''CVE-2020-9283.json'' [2])
          (Some (toyRecord ''CVE-2020-9283'' TriageStateIssueCreated))
          (toyWorld [toyRecord ''CVE-2020-9283'' TriageStateIssueCreated])) = Inr False \<and>
   (\<exists>md. storedRecord
            (snd (handleCVE toyLib toyUpdater (toyFile ''CVE-2020-9283.json'' [2])
                    (Some (toyRecord ''CVE-2020-9283'' TriageStateIssueCreated))
                    (toyWorld [toyRecord ''CVE-2020-9283'' TriageStateIssueCreated])))
            ''CVE-2020-9283'' = Some md \<and>
         TriageState md = TriageStateUpdatedSinceIssueCreation \<and>
         TriageStateReason md = ''CVE changed; affected module = \"\"'')"
proof -
  define f where "f = toyFile ''CVE-2020-9283.json'' [2]"
  define cve where "cve = \<lparr>cve_ID = ''CVE-2020-9283'', cve_State = ''PUBLIC'', cve_Description = []\<rparr>"
  define rec where "rec = toyRecord ''CVE-2020-9283''"
  have blob: "repo toyUpdater (blobHash f) = Inr ''CVE-2020-9283''"
    by (simp add: f_def toyUpdater_def toyFile_def)
  have dec: "jsonDecode toyLib ''CVE-2020-9283'' = Inr cve"
    by (simp add: cve_def toyLib_def)
  have known: "knownIDs toyUpdater (cve_ID cve)"
    by (simp add: cve_def toyUpdater_def)
  have cid: "cve_ID cve = ''CVE-2020-9283''" by (simp add: cve_def)
  have ids: "ID (rec ts) = ''CVE-2020-9283''" "TriageState (rec ts) = ts" for ts
    by (simp_all add: rec_def toyRecord_def)
  have q: "quote toyLib '''' = ''\"\"''" by (simp add: toyLib_def)
  note th = handleCVE_known[OF blob dec known]

  \<comment> \<open>no stored record\<close>
  let ?r0 = "handleCVE toyLib toyUpdater f None (toyWorld [])"
  have t: "triaged (snd ?r0) = triaged (toyWorld [])"
    by (rule th[where old = None, THEN conjunct1])
  have pre0: "cve_ID cve \<notin> ID ` set (cveRecords (toyWorld [])) \<and>
      (\<forall>r. fault (toyWorld []) (OpCreateCVERecord r) = None)"
    by (simp add: toyWorld_def)
  have ok0: "fst ?r0 = Inr True"
    by (rule th[THEN conjunct2, THEN conjunct2, THEN conjunct1, rule_format, OF pre0])
  then have h0: "?r0 = (Inr True, snd ?r0)" by (metis prod.collapse)
  note after0 = th[THEN conjunct2, THEN conjunct2, THEN conjunct2, THEN conjunct2, THEN conjunct2,
      THEN conjunct1, rule_format, OF h0, THEN conjunct2, unfolded cid]

  \<comment> \<open>a stored record that needed an issue\<close>
  let ?w1 = "toyWorld [rec TriageStateNeedsIssue]"
  let ?r1 = "handleCVE toyLib toyUpdater f (Some (rec TriageStateNeedsIssue)) ?w1"
  have pre1: "(\<forall>s. TriageState (rec TriageStateNeedsIssue) \<noteq> TriageStateOther s) \<and>
      ID (rec TriageStateNeedsIssue) \<in> ID ` set (cveRecords ?w1) \<and>
      (\<forall>r. fault ?w1 (OpSetCVERecord r) = None)"
    by (simp add: ids toyWorld_def)
  have ok1: "fst ?r1 = Inr False"
    by (rule th[THEN conjunct2, THEN conjunct2, THEN conjunct2, THEN conjunct2, THEN conjunct1,
          rule_format, OF pre1])
  then have h1: "?r1 = (Inr False, snd ?r1)" by (metis prod.collapse)
  note after1 = th[THEN conjunct2, THEN conjunct2, THEN conjunct2, THEN conjunct2, THEN conjunct2,
      THEN conjunct2, rule_format, OF h1, THEN conjunct2, unfolded ids]
  then have c1: "\<exists>md. storedRecord (snd ?r1) ''CVE-2020-9283'' = Some md \<and>
         TriageState md = TriageStateNoActionNeeded"
    by auto

  \<comment> \<open>a stored record with an issue\<close>
  let ?w2 = "toyWorld [rec TriageStateIssueCreated]"
  let ?r2 = "handleCVE toyLib toyUpdater f (Some (rec TriageStateIssueCreated)) ?w2"
  have pre2: "(\<forall>s. TriageState (rec TriageStateIssueCreated) \<noteq> TriageStateOther s) \<and>
      ID (rec TriageStateIssueCreated) \<in> ID ` set (cveRecords ?w2) \<and>
      (\<forall>r. fault ?w2 (OpSetCVERecord r) = None)"
    by (simp add: ids toyWorld_def)
  have ok2: "fst ?r2 = Inr False"
    by (rule th[THEN conjunct2, THEN conjunct2, THEN conjunct2, THEN conjunct2, THEN conjunct1,
          rule_format, OF pre2])
  then have h2: "?r2 = (Inr False, snd ?r2)" by (metis prod.collapse)
  note after2 = th[THEN conjunct2, THEN conjunct2, THEN conjunct2, THEN conjunct2, THEN conjunct2,
      THEN conjunct2, rule_format, OF h2, THEN conjunct2, unfolded ids q]
  then have c2: "\<exists>md. storedRecord (snd ?r2) ''CVE-2020-9283'' = Some md \<and>
         TriageState md = TriageStateUpdatedSinceIssueCreation \<and>
         TriageStateReason md = ''CVE changed; affected module = \"\"''"
    by auto

  have "triaged (toyWorld []) = []" by (simp add: toyWorld_def)
  with t have t0: "triaged (snd ?r0) = []" by simp
  from blob dec known t0 ok0 after0 ok1 c1 ok2 c2 show ?thesis
    unfolding f_def cve_def rec_def by simp
qed

subsection \<open>One directory\<close>

lemma handleCVE_frame:
  assumes "handleCVE lib u f old w = (r, w')"
  shows "dirHashes w' = dirHashes w \<and> fault w' = fault w \<and> numTransactions w' = numTransactions w"
proof (cases "repo u (blobHash f)")
  case (Inl e)
  with assms show ?thesis by (simp add: handleCVE_def)
next
  case (Inr raw)
  note blob = this
  show ?thesis
  proof (cases "jsonDecode lib raw")
    case (Inl e)
    with assms blob show ?thesis by (simp add: handleCVE_def)
  next
    case (Inr cve)
    note dec = this
    obtain tr w1 where tri: "triageStep u cve w = (tr, w1)" by (cases "triageStep u cve w")
    note f1 = triageStep_frame[OF tri]
    show ?thesis
    proof (cases tr)
      case (Inl e)
      with assms blob dec tri f1 show ?thesis by (simp add: handleCVE_def Let_def)
    next
      case (Inr result)
      note tri' = tri[unfolded Inr]
      show ?thesis
      proof (cases old)
        case None
        from assms[unfolded None handleCVE_new[OF blob dec tri']] f1
        show ?thesis by (auto split: sum.splits dest: CreateCVERecord_frame)
      next
        case (Some ex)
        from assms[unfolded Some handleCVE_existing[OF blob dec tri']] f1
        show ?thesis by (auto split: sum.splits dest: SetCVERecord_frame)
      qed
    qed
  qed
qed

lemma batchLoop_frame:
  "batchLoop lib u idToRecord fs c w = (r, w') \<Longrightarrow>
   dirHashes w' = dirHashes w \<and> fault w' = fault w \<and> numTransactions w' = numTransactions w"
proof (induction fs arbitrary: c w)
  case Nil
  then show ?case by (cases c) auto
next
  case (Cons f fs)
  obtain a m where c: "c = (a, m)" by (cases c)
  let ?old = "idToRecord (idFromFilename (filename f))"
  show ?case
  proof (cases "?old \<noteq> None \<and> BlobHash (the ?old) = hashString (blobHash f)")
    case True
    with Cons.prems c have "batchLoop lib u idToRecord fs (a, m) w = (r, w')" by (simp add: Let_def)
    then show ?thesis by (rule Cons.IH)
  next
    case False
    obtain hr w1 where h: "handleCVE lib u f ?old w = (hr, w1)" by (cases "handleCVE lib u f ?old w")
    note hf = handleCVE_frame[OF h]
    show ?thesis
    proof (cases hr)
      case (Inl e)
      with Cons.prems c False h hf show ?thesis by (auto simp: Let_def)
    next
      case (Inr added)
      with Cons.prems c False h
      have "\<exists>c'. batchLoop lib u idToRecord fs c' w1 = (r, w')"
        by (auto simp: Let_def split: if_splits)
      then obtain c' where "batchLoop lib u idToRecord fs c' w1 = (r, w')" by blast
      from Cons.IH[OF this] hf show ?thesis by simp
    qed
  qed
qed

lemma RunTransaction_frame:
  assumes "RunTransaction body w = (r, w')"
    and "\<And>tx r1 w1. body tx = (r1, w1) \<Longrightarrow>
           dirHashes w1 = dirHashes tx \<and> fault w1 = fault tx \<and> numTransactions w1 = numTransactions tx"
  shows "dirHashes w' = dirHashes w \<and> fault w' = fault w \<and> numTransactions w' = numTransactions w + 1"
proof -
  let ?w0 = "w\<lparr>numTransactions := numTransactions w + 1\<rparr>"
  obtain r1 w1 where b: "body ?w0 = (r1, w1)" by (cases "body ?w0")
  from assms(2)[OF b] have f: "dirHashes w1 = dirHashes w" "fault w1 = fault w"
    "numTransactions w1 = numTransactions w + 1" by simp_all
  from assms(1) b f show ?thesis
    by (auto simp: RunTransaction_def Let_def split: sum.splits option.splits)
qed

lemma updateBatch_frame:
  assumes "updateBatch lib u batch w = (r, w')"
  shows "dirHashes w' = dirHashes w \<and> fault w' = fault w \<and>
         numTransactions w \<le> numTransactions w' \<and>
         (batch \<noteq> [] \<longrightarrow> numTransactions w' = numTransactions w + 1)"
proof (cases "batch = []")
  case True
  with assms show ?thesis by (simp add: updateBatch_def)
next
  case False
  let ?s = "idFromFilename (filename (batch ! 0))"
  let ?e = "idFromFilename (filename (batch ! (length batch - 1)))"
  let ?body = "\<lambda>tx. case GetCVERecords ?s ?e tx of
                      Inl e \<Rightarrow> (Inl e, tx)
                    | Inr crs \<Rightarrow> batchLoop lib u (idToRecordOf crs) batch (0, 0) tx"
  have run: "RunTransaction ?body w = (r, w')"
    using assms False by (simp add: updateBatch_def Let_def)
  have "dirHashes w' = dirHashes w \<and> fault w' = fault w \<and> numTransactions w' = numTransactions w + 1"
  proof (rule RunTransaction_frame[OF run])
    fix tx r1 w1
    assume b: "(case GetCVERecords ?s ?e tx of
                      Inl e \<Rightarrow> (Inl e, tx)
                    | Inr crs \<Rightarrow> batchLoop lib u (idToRecordOf crs) batch (0, 0) tx) = (r1, w1)"
    show "dirHashes w1 = dirHashes tx \<and> fault w1 = fault tx \<and> numTransactions w1 = numTransactions tx"
    proof (cases "GetCVERecords ?s ?e tx")
      case (Inl e)
      with b show ?thesis by simp
    next
      case (Inr crs)
      with b have "batchLoop lib u (idToRecordOf crs) batch (0, 0) tx = (r1, w1)" by simp
      then show ?thesis by (rule batchLoop_frame)
    qed
  qed
  with False show ?thesis by simp
qed

lemma directoryLoop_frame:
  "directoryLoop lib u dirFiles i stats w = (r, w') \<Longrightarrow>
   dirHashes w' = dirHashes w \<and> fault w' = fault w \<and>
   numTransactions w \<le> numTransactions w' \<and>
   (i < length dirFiles \<longrightarrow> numTransactions w < numTransactions w') \<and>
   (\<forall>st. r = Inr st \<longrightarrow> numProcessed st = numProcessed stats + (length dirFiles - i))"
proof (induction "length dirFiles - i" arbitrary: i stats w rule: less_induct)
  case less
  show ?case
  proof (cases "i < length dirFiles")
    case False
    with less.prems show ?thesis by (auto simp: directoryLoop.simps[of lib u dirFiles i])
  next
    case True
    define j where "j = (if i + maxTransactionWrites > length dirFiles then length dirFiles
                          else i + maxTransactionWrites)"
    have ij: "i < j" "j \<le> length dirFiles" using True by (auto simp: j_def maxTransactionWrites_def)
    let ?batch = "take (j - i) (drop i dirFiles)"
    have bne: "?batch \<noteq> []" using ij by simp
    obtain br w1 where ub: "updateBatch lib u ?batch w = (br, w1)"
      by (cases "updateBatch lib u ?batch w")
    note uf = updateBatch_frame[OF ub]
    show ?thesis
    proof (cases br)
      case (Inl e)
      with less.prems True ub have "r = Inl e" "w' = w1"
        by (simp_all add: directoryLoop.simps[of lib u dirFiles i] Let_def j_def)
      with uf bne True show ?thesis by simp
    next
      case (Inr counts)
      obtain a m where counts: "counts = (a, m)" by (cases counts)
      let ?stats = "stats\<lparr>numProcessed := numProcessed stats + (j - i),
                         numAdded := numAdded stats + a,
                         numModified := numModified stats + m\<rparr>"
      have rec: "directoryLoop lib u dirFiles (i + maxTransactionWrites) ?stats w1 = (r, w')"
        using less.prems True ub Inr counts
        by (simp add: directoryLoop.simps[of lib u dirFiles i] Let_def j_def)
      have dec: "length dirFiles - (i + maxTransactionWrites) < length dirFiles - i"
        using True by (simp add: maxTransactionWrites_def)
      note ih = less.hyps[OF dec rec]
      have np: "\<forall>st. r = Inr st \<longrightarrow> numProcessed st = numProcessed stats + (length dirFiles - i)"
      proof (intro allI impI)
        fix st assume "r = Inr st"
        with ih have "numProcessed st = numProcessed ?stats + (length dirFiles - (i + maxTransactionWrites))"
          by blast
        then show "numProcessed st = numProcessed stats + (length dirFiles - i)"
          using ij True by (auto simp: j_def split: if_splits)
      qed
      from ih have a: "dirHashes w' = dirHashes w1" "fault w' = fault w1"
        "numTransactions w1 \<le> numTransactions w'" by blast+
      from uf bne have b: "dirHashes w1 = dirHashes w" "fault w1 = fault w"
        "numTransactions w1 = numTransactions w + 1" by blast+
      have "dirHashes w' = dirHashes w \<and> fault w' = fault w \<and>
          numTransactions w \<le> numTransactions w' \<and>
          (i < length dirFiles \<longrightarrow> numTransactions w < numTransactions w')"
        using a b by simp
      with np show ?thesis by blast
    qed
  qed
qed

text \<open>The batch loop runs the batches of the directory.\<close>

lemma chunks_concat:
  "concat (map (\<lambda>k. take m (drop (k * m) xs)) [0..<n]) = take (n * m) xs"
proof (induction n)
  case 0
  show ?case by simp
next
  case (Suc n)
  have "take (n * m + m) xs = take (n * m) xs @ take m (drop (n * m) xs)"
    by (rule take_add)
  with Suc show ?case by (simp add: add.commute)
qed

lemma batch_count:
  "(k < (n + maxTransactionWrites - 1) div maxTransactionWrites) = (k * maxTransactionWrites < n)"
  unfolding maxTransactionWrites_def by arith

lemma batchesOf_concat: "concat (batchesOf dirFiles) = dirFiles"
proof -
  let ?n = "(length dirFiles + maxTransactionWrites - 1) div maxTransactionWrites"
  have "(?n < ?n) = (?n * maxTransactionWrites < length dirFiles)" by (rule batch_count)
  then have "\<not> ?n * maxTransactionWrites < length dirFiles" by blast
  then show ?thesis by (simp add: batchesOf_def chunks_concat)
qed

lemma batchesOf_sizes:
  "\<forall>b\<in>set (batchesOf dirFiles). b \<noteq> [] \<and> length b \<le> maxTransactionWrites"
proof
  fix b assume "b \<in> set (batchesOf dirFiles)"
  then obtain k where k: "k < (length dirFiles + maxTransactionWrites - 1) div maxTransactionWrites"
    and b: "b = take maxTransactionWrites (drop (k * maxTransactionWrites) dirFiles)"
    by (auto simp: batchesOf_def)
  from k have "k * maxTransactionWrites < length dirFiles" using batch_count by blast
  then have "drop (k * maxTransactionWrites) dirFiles \<noteq> []" by simp
  then show "b \<noteq> [] \<and> length b \<le> maxTransactionWrites"
    unfolding b by (simp add: maxTransactionWrites_def)
qed

lemma runBatches_frame:
  "runBatches lib u bs w = (r, w') \<Longrightarrow>
   dirHashes w' = dirHashes w \<and> fault w' = fault w \<and>
   (\<forall>counts. r = Inr counts \<longrightarrow> length counts = length bs \<and>
      ((\<forall>b\<in>set bs. b \<noteq> []) \<longrightarrow> numTransactions w' = numTransactions w + length bs))"
proof (induction bs arbitrary: w r w')
  case Nil
  then show ?case by auto
next
  case (Cons b bs)
  obtain br w1 where ub: "updateBatch lib u b w = (br, w1)" by (cases "updateBatch lib u b w")
  note uf = updateBatch_frame[OF ub]
  show ?case
  proof (cases br)
    case (Inl e)
    with Cons.prems ub have "r = Inl e" "w' = w1" by simp_all
    with uf show ?thesis by simp
  next
    case (Inr c)
    obtain rr w2 where rb: "runBatches lib u bs w1 = (rr, w2)" by (cases "runBatches lib u bs w1")
    note ih = Cons.IH[OF rb]
    show ?thesis
    proof (cases rr)
      case (Inl e)
      with Cons.prems ub Inr rb have "r = Inl e" "w' = w2" by simp_all
      with uf ih show ?thesis by simp
    next
      case rest: (Inr cs)
      with Cons.prems ub Inr rb have rw: "r = Inr (c # cs)" "w' = w2" by simp_all
      from ih rest have l: "length cs = length bs"
        and n: "(\<forall>b\<in>set bs. b \<noteq> []) \<longrightarrow> numTransactions w2 = numTransactions w1 + length bs"
        by blast+
      from ih have f: "dirHashes w2 = dirHashes w1" "fault w2 = fault w1" by blast+
      from uf have g: "dirHashes w1 = dirHashes w" "fault w1 = fault w"
        "b \<noteq> [] \<longrightarrow> numTransactions w1 = numTransactions w + 1" by blast+
      show ?thesis unfolding rw using l n f g by auto
    qed
  qed
qed

lemma directoryLoop_done:
  "\<not> i < length dirFiles \<Longrightarrow> directoryLoop lib u dirFiles i stats w = (Inr stats, w)"
  by (simp add: directoryLoop.simps[of lib u dirFiles i])

lemma directoryLoop_step:
  assumes "i < length dirFiles"
    and "updateBatch lib u (take maxTransactionWrites (drop i dirFiles)) w = (br, w1)"
  shows "directoryLoop lib u dirFiles i stats w =
    (case br of
       Inl e \<Rightarrow> (Inl e, w1)
     | Inr (a, m) \<Rightarrow>
         directoryLoop lib u dirFiles (i + maxTransactionWrites)
           (stats\<lparr>numProcessed := numProcessed stats + min maxTransactionWrites (length dirFiles - i),
                  numAdded := numAdded stats + a,
                  numModified := numModified stats + m\<rparr>) w1)"
proof -
  let ?j = "if length dirFiles < i + maxTransactionWrites then length dirFiles
            else i + maxTransactionWrites"
  have n: "?j - i = min maxTransactionWrites (length dirFiles - i)"
    using assms(1) by auto
  have "take (min maxTransactionWrites (length (drop i dirFiles))) (drop i dirFiles)
      = take maxTransactionWrites (drop i dirFiles)"
    by (cases "maxTransactionWrites \<le> length (drop i dirFiles)") (simp_all add: min_def)
  then have b: "take (min maxTransactionWrites (length dirFiles - i)) (drop i dirFiles)
      = take maxTransactionWrites (drop i dirFiles)"
    by (simp only: length_drop)
  have "directoryLoop lib u dirFiles i stats w =
    (case updateBatch lib u (take maxTransactionWrites (drop i dirFiles)) w of
       (Inl e, w') \<Rightarrow> (Inl e, w')
     | (Inr (a, m), w') \<Rightarrow>
         directoryLoop lib u dirFiles (i + maxTransactionWrites)
           (stats\<lparr>numProcessed := numProcessed stats + min maxTransactionWrites (length dirFiles - i),
                  numAdded := numAdded stats + a,
                  numModified := numModified stats + m\<rparr>) w')"
    by (simp only: directoryLoop.simps[of lib u dirFiles i stats w] assms(1) if_True Let_def n b)
  then show ?thesis unfolding assms(2) by (cases br) auto
qed

lemma directoryLoop_batches:
  "directoryLoop lib u dirFiles (k * maxTransactionWrites) stats w =
     (case runBatches lib u
             (map (\<lambda>k. take maxTransactionWrites (drop (k * maxTransactionWrites) dirFiles))
                [k..<(length dirFiles + maxTransactionWrites - 1) div maxTransactionWrites]) w of
        (Inl e, w') \<Rightarrow> (Inl e, w')
      | (Inr counts, w') \<Rightarrow>
          (Inr (stats\<lparr>numProcessed := numProcessed stats
                                      + (length dirFiles - k * maxTransactionWrites),
                     numAdded := numAdded stats + sum_list (map fst counts),
                     numModified := numModified stats + sum_list (map snd counts)\<rparr>), w'))"
proof (induction "length dirFiles - k * maxTransactionWrites" arbitrary: k stats w rule: less_induct)
  case less
  let ?M = maxTransactionWrites
  let ?N = "(length dirFiles + ?M - 1) div ?M"
  let ?g = "\<lambda>k. take ?M (drop (k * ?M) dirFiles)"
  show ?case
  proof (cases "k * ?M < length dirFiles")
    case False
    then have "\<not> k < ?N" by (simp only: batch_count not_False_eq_True)
    then have e: "[k..<?N] = []" by simp
    from False have z: "length dirFiles - k * ?M = 0" by simp
    show ?thesis
      unfolding e z directoryLoop_done[OF False] by simp
  next
    case True
    then have "k < ?N" by (simp only: batch_count)
    then have c: "[k..<?N] = k # [Suc k..<?N]" by (rule upt_conv_Cons)
    have sk: "Suc k * ?M = k * ?M + ?M" by simp
    obtain br w1 where ub: "updateBatch lib u (?g k) w = (br, w1)"
      by (cases "updateBatch lib u (?g k) w")
    note step = directoryLoop_step[OF True ub, of stats]
    show ?thesis
    proof (cases br)
      case (Inl e)
      with step ub show ?thesis unfolding c by simp
    next
      case (Inr counts)
      obtain a m where am: "counts = (a, m)" by (cases counts)
      let ?stats = "stats\<lparr>numProcessed := numProcessed stats + min ?M (length dirFiles - k * ?M),
                  numAdded := numAdded stats + a,
                  numModified := numModified stats + m\<rparr>"
      from step Inr am
      have l: "directoryLoop lib u dirFiles (k * ?M) stats w
          = directoryLoop lib u dirFiles (Suc k * ?M) ?stats w1"
        by (simp only: sk sum.case prod.case)
      have dec: "length dirFiles - Suc k * ?M < length dirFiles - k * ?M"
        using True by (simp add: maxTransactionWrites_def)
      note ih = less.hyps[OF dec, of ?stats w1]
      obtain rr w2 where rb: "runBatches lib u (map ?g [Suc k..<?N]) w1 = (rr, w2)"
        by (cases "runBatches lib u (map ?g [Suc k..<?N]) w1")
      have r: "runBatches lib u (map ?g [k..<?N]) w =
          (case rr of Inl e \<Rightarrow> (Inl e, w2) | Inr rest \<Rightarrow> (Inr ((a, m) # rest), w2))"
        unfolding c list.map(2) runBatches.simps ub Inr am prod.case sum.case rb
        by (cases rr) simp_all
      have n: "min ?M (length dirFiles - k * ?M) + (length dirFiles - Suc k * ?M)
          = length dirFiles - k * ?M"
        by (simp add: maxTransactionWrites_def)
      show ?thesis
      proof (cases rr)
        case (Inl e)
        with l ih rb r show ?thesis by simp
      next
        case rest: (Inr cs)
        from l ih rb rest
        have "directoryLoop lib u dirFiles (k * ?M) stats w =
            (Inr (?stats\<lparr>numProcessed := numProcessed ?stats + (length dirFiles - Suc k * ?M),
                     numAdded := numAdded ?stats + sum_list (map fst cs),
                     numModified := numModified ?stats + sum_list (map snd cs)\<rparr>), w2)"
          by simp
        also have "?stats\<lparr>numProcessed := numProcessed ?stats + (length dirFiles - Suc k * ?M),
                     numAdded := numAdded ?stats + sum_list (map fst cs),
                     numModified := numModified ?stats + sum_list (map snd cs)\<rparr>
            = stats\<lparr>numProcessed := numProcessed stats + (length dirFiles - k * ?M),
                     numAdded := numAdded stats + sum_list (map fst ((a, m) # cs)),
                     numModified := numModified stats + sum_list (map snd ((a, m) # cs))\<rparr>"
          using n by (simp add: add.assoc)
        finally show ?thesis unfolding r rest by simp
      qed
    qed
  qed
qed

lemma hexDigit_hex: "hexDigit n \<in> set ''0123456789abcdef''"
proof -
  have "n mod 16 < length ''0123456789abcdef''" by simp
  then show ?thesis unfolding hexDigit_def by (rule nth_mem)
qed

lemma hashString_hex: "set (hashString h) \<subseteq> set ''0123456789abcdef''"
  unfolding hashString_def using hexDigit_hex by (induction h) auto

lemma hashString_not_in_progress: "hashString h \<noteq> ''in progress''"
proof
  assume "hashString h = ''in progress''"
  then have "CHR ''i'' \<in> set (hashString h)" by simp
  with hashString_hex[of h] show False by auto
qed

lemma updateDirectory_skip:
  "dirFiles \<noteq> [] \<Longrightarrow> fault w (OpGetDirectoryHash (dirPath (dirFiles ! 0))) = None \<Longrightarrow>
   dirHashes w (dirPath (dirFiles ! 0)) = hashString (treeHash (dirFiles ! 0)) \<Longrightarrow>
   updateDirectory lib u dirFiles w = (Inr \<lparr>numProcessed = 0, numAdded = 0, numModified = 0\<rparr>, w)"
  by (simp add: updateDirectory_def GetDirectoryHash_def Let_def)

lemma updateDirectory_unfold:
  assumes "dirFiles \<noteq> []" "fault w (OpGetDirectoryHash (dirPath (dirFiles ! 0))) = None"
    "dirHashes w (dirPath (dirFiles ! 0)) \<noteq> hashString (treeHash (dirFiles ! 0))"
    "fault w (OpSetDirectoryHash (dirPath (dirFiles ! 0)) ''in progress'') = None"
  shows "updateDirectory lib u dirFiles w =
    (case directoryLoop lib u dirFiles 0 \<lparr>numProcessed = 0, numAdded = 0, numModified = 0\<rparr>
            (w\<lparr>dirHashes := (dirHashes w)(dirPath (dirFiles ! 0) := ''in progress'')\<rparr>) of
       (Inl e, w2) \<Rightarrow> (Inl e, w2)
     | (Inr stats, w2) \<Rightarrow>
         (case SetDirectoryHash (dirPath (dirFiles ! 0)) (hashString (treeHash (dirFiles ! 0))) w2 of
            Inl e \<Rightarrow> (Inl e, w2)
          | Inr w3 \<Rightarrow> (Inr stats, w3)))"
  using assms
  by (simp add: updateDirectory_def GetDirectoryHash_def SetDirectoryHash_def Let_def
        eq_commute[of "hashString (treeHash (dirFiles ! 0))"])

lemma updateDirectory_changed:
  assumes ne: "dirFiles \<noteq> []" and g: "fault w (OpGetDirectoryHash (dirPath (dirFiles ! 0))) = None"
    and d: "dirHashes w (dirPath (dirFiles ! 0)) \<noteq> hashString (treeHash (dirFiles ! 0))"
    and s: "fault w (OpSetDirectoryHash (dirPath (dirFiles ! 0)) ''in progress'') = None"
    and run: "updateDirectory lib u dirFiles w = (r, w')"
  shows "fault w' = fault w" "numTransactions w < numTransactions w'"
    "\<forall>e. r = Inl e \<longrightarrow> dirHashes w' (dirPath (dirFiles ! 0)) = ''in progress''"
    "\<forall>stats. r = Inr stats \<longrightarrow>
       dirHashes w' (dirPath (dirFiles ! 0)) = hashString (treeHash (dirFiles ! 0)) \<and>
       numProcessed stats = length dirFiles"
proof -
  let ?dir = "dirPath (dirFiles ! 0)"
  let ?h = "hashString (treeHash (dirFiles ! 0))"
  let ?w1 = "w\<lparr>dirHashes := (dirHashes w)(?dir := ''in progress'')\<rparr>"
  let ?zero = "\<lparr>numProcessed = 0, numAdded = 0, numModified = 0\<rparr>"
  obtain lr w2 where loop: "directoryLoop lib u dirFiles 0 ?zero ?w1 = (lr, w2)"
    by (cases "directoryLoop lib u dirFiles 0 ?zero ?w1")
  from directoryLoop_frame[OF loop] ne
  have fr: "dirHashes w2 ?dir = ''in progress''" "fault w2 = fault w"
    "numTransactions w < numTransactions w2"
    "\<forall>st. lr = Inr st \<longrightarrow> numProcessed st = length dirFiles"
    by simp_all
  note unf = updateDirectory_unfold[OF ne g d s, of lib u, unfolded loop run]
  have "fault w' = fault w \<and> numTransactions w < numTransactions w' \<and>
    (\<forall>e. r = Inl e \<longrightarrow> dirHashes w' ?dir = ''in progress'') \<and>
    (\<forall>stats. r = Inr stats \<longrightarrow> dirHashes w' ?dir = ?h \<and> numProcessed stats = length dirFiles)"
  proof (cases lr)
    case (Inl e)
    with unf have "r = Inl e" "w' = w2" by simp_all
    with fr show ?thesis by simp
  next
    case (Inr stats)
    note lr = this
    show ?thesis
    proof (cases "SetDirectoryHash ?dir ?h w2")
      case (Inl e)
      with unf lr have "r = Inl e" "w' = w2" by simp_all
      with fr show ?thesis by simp
    next
      case (Inr w3)
      with unf lr have rw: "r = Inr stats" "w' = w3" by simp_all
      from Inr have "w3 = w2\<lparr>dirHashes := (dirHashes w2)(?dir := ?h)\<rparr>"
        by (auto simp: SetDirectoryHash_def split: option.splits)
      with rw fr lr show ?thesis by simp
    qed
  qed
  then show "fault w' = fault w" "numTransactions w < numTransactions w'"
    "\<forall>e. r = Inl e \<longrightarrow> dirHashes w' ?dir = ''in progress''"
    "\<forall>stats. r = Inr stats \<longrightarrow> dirHashes w' ?dir = ?h \<and> numProcessed stats = length dirFiles"
    by blast+
qed

lemma updateDirectory_batches:
  assumes "dirFiles \<noteq> []" "fault w (OpGetDirectoryHash (dirPath (dirFiles ! 0))) = None"
    "dirHashes w (dirPath (dirFiles ! 0)) \<noteq> hashString (treeHash (dirFiles ! 0))"
    "fault w (OpSetDirectoryHash (dirPath (dirFiles ! 0)) ''in progress'') = None"
  shows "updateDirectory lib u dirFiles w =
    (case runBatches lib u (batchesOf dirFiles)
            (w\<lparr>dirHashes := (dirHashes w)(dirPath (dirFiles ! 0) := ''in progress'')\<rparr>) of
       (Inl e, w2) \<Rightarrow> (Inl e, w2)
     | (Inr counts, w2) \<Rightarrow>
         (case SetDirectoryHash (dirPath (dirFiles ! 0)) (hashString (treeHash (dirFiles ! 0))) w2 of
            Inl e \<Rightarrow> (Inl e, w2)
          | Inr w3 \<Rightarrow>
              (Inr \<lparr>numProcessed = length dirFiles,
                    numAdded = sum_list (map fst counts),
                    numModified = sum_list (map snd counts)\<rparr>, w3)))"
proof -
  let ?w1 = "w\<lparr>dirHashes := (dirHashes w)(dirPath (dirFiles ! 0) := ''in progress'')\<rparr>"
  let ?zero = "\<lparr>numProcessed = 0, numAdded = 0, numModified = 0\<rparr>"
  obtain rr w2 where rb: "runBatches lib u (batchesOf dirFiles) ?w1 = (rr, w2)"
    by (cases "runBatches lib u (batchesOf dirFiles) ?w1")
  have z: "0 * maxTransactionWrites = 0" by simp
  note loop = directoryLoop_batches[of lib u dirFiles 0 ?zero ?w1,
      unfolded z, folded batchesOf_def, unfolded rb]
  show ?thesis
    unfolding updateDirectory_unfold[OF assms] loop rb
    by (cases rr) simp_all
qed

lemma updateDirectory_count:
  assumes ne: "dirFiles \<noteq> []" and g: "fault w (OpGetDirectoryHash (dirPath (dirFiles ! 0))) = None"
    and d: "dirHashes w (dirPath (dirFiles ! 0)) \<noteq> hashString (treeHash (dirFiles ! 0))"
    and s: "fault w (OpSetDirectoryHash (dirPath (dirFiles ! 0)) ''in progress'') = None"
    and run: "updateDirectory lib u dirFiles w = (Inr stats, w')"
  shows "numTransactions w' = numTransactions w + length (batchesOf dirFiles)"
proof -
  let ?dir = "dirPath (dirFiles ! 0)"
  let ?h = "hashString (treeHash (dirFiles ! 0))"
  let ?w1 = "w\<lparr>dirHashes := (dirHashes w)(?dir := ''in progress'')\<rparr>"
  obtain rr w2 where rb: "runBatches lib u (batchesOf dirFiles) ?w1 = (rr, w2)"
    by (cases "runBatches lib u (batchesOf dirFiles) ?w1")
  note unf = updateDirectory_batches[OF ne g d s, of lib u, unfolded rb run]
  show ?thesis
  proof (cases rr)
    case (Inl e)
    with unf show ?thesis by simp
  next
    case (Inr counts)
    from runBatches_frame[OF rb] Inr batchesOf_sizes[of dirFiles]
    have n: "numTransactions w2 = numTransactions ?w1 + length (batchesOf dirFiles)" by blast
    show ?thesis
    proof (cases "SetDirectoryHash ?dir ?h w2")
      case (Inl e)
      with unf Inr show ?thesis by simp
    next
      case set: (Inr w3)
      with unf Inr have "w' = w3" by simp
      moreover from set have "numTransactions w3 = numTransactions w2"
        by (auto simp: SetDirectoryHash_def split: option.splits)
      ultimately show ?thesis using n by simp
    qed
  qed
qed

text \<open>
  Claim C5. For a directory group whose stored hash equals the current tree hash,
  \<open>updateDirectory\<close> returns empty statistics and leaves the store as it is, so no
  transaction is run. Otherwise the stored hash is set to "in progress", and in that
  state the batches of the group are processed: its files in order, at most
  \<open>maxTransactionWrites\<close> to a batch and none left out, one batch after another up to
  the first that fails. When a batch fails the call fails with its error. Only when
  every batch has succeeded is the tree hash stored, and the call then returns the
  number of all files with the additions and modifications of all batches, having run
  one transaction for each batch. At least one transaction is run in any case; when
  the call fails the stored hash is still "in progress", and the next call for the
  directory again runs transactions. No tree hash prints as "in progress".
\<close>

theorem updateDirectory_protocol:
  assumes ne: "dirFiles \<noteq> []"
  shows
   "(fault w (OpGetDirectoryHash (dirPath (dirFiles ! 0))) = None \<and>
     dirHashes w (dirPath (dirFiles ! 0)) = hashString (treeHash (dirFiles ! 0)) \<longrightarrow>
       updateDirectory lib u dirFiles w
         = (Inr \<lparr>numProcessed = 0, numAdded = 0, numModified = 0\<rparr>, w)) \<and>
    concat (batchesOf dirFiles) = dirFiles \<and>
    (\<forall>b\<in>set (batchesOf dirFiles). b \<noteq> [] \<and> length b \<le> maxTransactionWrites) \<and>
    (fault w (OpGetDirectoryHash (dirPath (dirFiles ! 0))) = None \<and>
     dirHashes w (dirPath (dirFiles ! 0)) \<noteq> hashString (treeHash (dirFiles ! 0)) \<and>
     fault w (OpSetDirectoryHash (dirPath (dirFiles ! 0)) ''in progress'') = None \<longrightarrow>
       updateDirectory lib u dirFiles w =
         (case runBatches lib u (batchesOf dirFiles)
                 (w\<lparr>dirHashes := (dirHashes w)(dirPath (dirFiles ! 0) := ''in progress'')\<rparr>) of
            (Inl e, w2) \<Rightarrow> (Inl e, w2)
          | (Inr counts, w2) \<Rightarrow>
              (case SetDirectoryHash (dirPath (dirFiles ! 0))
                      (hashString (treeHash (dirFiles ! 0))) w2 of
                 Inl e \<Rightarrow> (Inl e, w2)
               | Inr w3 \<Rightarrow>
                   (Inr \<lparr>numProcessed = length dirFiles,
                         numAdded = sum_list (map fst counts),
                         numModified = sum_list (map snd counts)\<rparr>, w3))) \<and>
       numTransactions w < numTransactions (snd (updateDirectory lib u dirFiles w)) \<and>
       (\<forall>e. fst (updateDirectory lib u dirFiles w) = Inl e \<longrightarrow>
          dirHashes (snd (updateDirectory lib u dirFiles w)) (dirPath (dirFiles ! 0)) = ''in progress'' \<and>
          numTransactions (snd (updateDirectory lib u dirFiles w))
            < numTransactions (snd (updateDirectory lib u dirFiles
                                      (snd (updateDirectory lib u dirFiles w))))) \<and>
       (\<forall>stats. fst (updateDirectory lib u dirFiles w) = Inr stats \<longrightarrow>
          dirHashes (snd (updateDirectory lib u dirFiles w)) (dirPath (dirFiles ! 0))
            = hashString (treeHash (dirFiles ! 0)) \<and>
          numProcessed stats = length dirFiles \<and>
          numTransactions (snd (updateDirectory lib u dirFiles w))
            = numTransactions w + length (batchesOf dirFiles))) \<and>
    hashString (treeHash (dirFiles ! 0)) \<noteq> ''in progress''"
proof (intro conjI impI)
  assume "fault w (OpGetDirectoryHash (dirPath (dirFiles ! 0))) = None \<and>
     dirHashes w (dirPath (dirFiles ! 0)) = hashString (treeHash (dirFiles ! 0))"
  then show "updateDirectory lib u dirFiles w
         = (Inr \<lparr>numProcessed = 0, numAdded = 0, numModified = 0\<rparr>, w)"
    using updateDirectory_skip[OF ne] by blast
next
  show "hashString (treeHash (dirFiles ! 0)) \<noteq> ''in progress''"
    by (rule hashString_not_in_progress)
next
  show "concat (batchesOf dirFiles) = dirFiles" by (rule batchesOf_concat)
next
  show "\<forall>b\<in>set (batchesOf dirFiles). b \<noteq> [] \<and> length b \<le> maxTransactionWrites"
    by (rule batchesOf_sizes)
next
  let ?dir = "dirPath (dirFiles ! 0)"
  let ?h = "hashString (treeHash (dirFiles ! 0))"
  assume c: "fault w (OpGetDirectoryHash ?dir) = None \<and> dirHashes w ?dir \<noteq> ?h \<and>
     fault w (OpSetDirectoryHash ?dir ''in progress'') = None"
  then have g: "fault w (OpGetDirectoryHash ?dir) = None" and d: "dirHashes w ?dir \<noteq> ?h"
    and s: "fault w (OpSetDirectoryHash ?dir ''in progress'') = None" by blast+
  show "updateDirectory lib u dirFiles w =
         (case runBatches lib u (batchesOf dirFiles)
                 (w\<lparr>dirHashes := (dirHashes w)(?dir := ''in progress'')\<rparr>) of
            (Inl e, w2) \<Rightarrow> (Inl e, w2)
          | (Inr counts, w2) \<Rightarrow>
              (case SetDirectoryHash ?dir ?h w2 of
                 Inl e \<Rightarrow> (Inl e, w2)
               | Inr w3 \<Rightarrow>
                   (Inr \<lparr>numProcessed = length dirFiles,
                         numAdded = sum_list (map fst counts),
                         numModified = sum_list (map snd counts)\<rparr>, w3)))"
    by (rule updateDirectory_batches[OF ne g d s])
  let ?r = "fst (updateDirectory lib u dirFiles w)"
  let ?w' = "snd (updateDirectory lib u dirFiles w)"
  have run: "updateDirectory lib u dirFiles w = (?r, ?w')" by simp
  note ch = updateDirectory_changed[OF ne g d s run]
  show "numTransactions w < numTransactions ?w'" by (rule ch(2))
  show "\<forall>stats. ?r = Inr stats \<longrightarrow> dirHashes ?w' ?dir = ?h \<and> numProcessed stats = length dirFiles \<and>
          numTransactions ?w' = numTransactions w + length (batchesOf dirFiles)"
  proof (intro allI impI)
    fix stats assume st: "?r = Inr stats"
    with run have "updateDirectory lib u dirFiles w = (Inr stats, ?w')" by simp
    from updateDirectory_count[OF ne g d s this] ch(4) st
    show "dirHashes ?w' ?dir = ?h \<and> numProcessed stats = length dirFiles \<and>
          numTransactions ?w' = numTransactions w + length (batchesOf dirFiles)"
      by blast
  qed
  show "\<forall>e. ?r = Inl e \<longrightarrow> dirHashes ?w' ?dir = ''in progress'' \<and>
          numTransactions ?w' < numTransactions (snd (updateDirectory lib u dirFiles ?w'))"
  proof (intro allI impI)
    fix e assume e: "?r = Inl e"
    with ch(3) have ip: "dirHashes ?w' ?dir = ''in progress''" by blast
    then have d': "dirHashes ?w' ?dir \<noteq> ?h" using hashString_not_in_progress[of "treeHash (dirFiles ! 0)"] by simp
    have g': "fault ?w' (OpGetDirectoryHash ?dir) = None"
      and s': "fault ?w' (OpSetDirectoryHash ?dir ''in progress'') = None"
      using ch(1) g s by simp_all
    have run': "updateDirectory lib u dirFiles ?w'
        = (fst (updateDirectory lib u dirFiles ?w'), snd (updateDirectory lib u dirFiles ?w'))" by simp
    from updateDirectory_changed(2)[OF ne g' d' s' run'] ip
    show "dirHashes ?w' ?dir = ''in progress'' \<and>
          numTransactions ?w' < numTransactions (snd (updateDirectory lib u dirFiles ?w'))"
      by blast
  qed
qed

lemma batchLoop_all_skipped:
  "\<forall>f\<in>set fs. \<exists>old. idToRecord (idFromFilename (filename f)) = Some old \<and>
                      BlobHash old = hashString (blobHash f) \<Longrightarrow>
   batchLoop lib u idToRecord fs (a, m) w = (Inr (a, m), w)"
  by (induction fs) (auto simp: Let_def)

lemma updateBatch_all_skipped:
  assumes "batch \<noteq> []"
    and "GetCVERecords (idFromFilename (filename (batch ! 0)))
           (idFromFilename (filename (batch ! (length batch - 1))))
           (w\<lparr>numTransactions := numTransactions w + 1\<rparr>) = Inr crs"
    and "\<forall>f\<in>set batch. \<exists>old. idToRecordOf crs (idFromFilename (filename f)) = Some old \<and>
                      BlobHash old = hashString (blobHash f)"
    and "fault w OpCommit = None"
  shows "updateBatch lib u batch w = (Inr (0, 0), w\<lparr>numTransactions := numTransactions w + 1\<rparr>)"
  using assms(1,2,4)
  by (simp add: updateBatch_def Let_def RunTransaction_def batchLoop_all_skipped[OF assms(3)])

lemmas toy_dir_eval =
  updateDirectory_def directoryLoop.simps updateBatch_def RunTransaction_def batchLoop.simps
  GetDirectoryHash_def SetDirectoryHash_def GetCVERecords_def idToRecordOf_def
  idFromFilename_def pathBase_def pathExt_def TrimSuffix_def maxTransactionWrites_def

lemma toy_skipped_batch:
  assumes "cveRecords w = cveRecords storedWorld" "fault w = (\<lambda>op. None)"
  shows "updateBatch toyLib toyUpdater
           (replicate maxTransactionWrites (toyFile ''CVE-2021-0001.json'' [1])) w
         = (Inr (0, 0), w\<lparr>numTransactions := numTransactions w + 1\<rparr>)"
proof -
  define f where "f = toyFile ''CVE-2021-0001.json'' [1]"
  define st where "st = (toyRecord ''CVE-2021-0001'' TriageStateNoActionNeeded)\<lparr>BlobHash := ''01''\<rparr>"
  have recs: "cveRecords w = [st]" using assms(1) by (simp add: storedWorld_def toyWorld_def st_def)
  have idf: "idFromFilename (filename f) = ''CVE-2021-0001''"
    by (simp add: f_def toyFile_def idFromFilename_def pathBase_def pathExt_def TrimSuffix_def)
  have ne: "replicate maxTransactionWrites f \<noteq> []" by (simp add: maxTransactionWrites_def)
  have first: "replicate maxTransactionWrites f ! 0 = f"
    and last: "replicate maxTransactionWrites f ! (length (replicate maxTransactionWrites f) - 1) = f"
    by (simp_all add: maxTransactionWrites_def)
  have get: "GetCVERecords (idFromFilename (filename (replicate maxTransactionWrites f ! 0)))
           (idFromFilename (filename (replicate maxTransactionWrites f
               ! (length (replicate maxTransactionWrites f) - 1))))
           (w\<lparr>numTransactions := numTransactions w + 1\<rparr>) = Inr [st]"
    unfolding first last idf
    by (simp add: GetCVERecords_def recs assms(2)) (simp add: st_def toyRecord_def)
  have skip: "\<forall>x\<in>set (replicate maxTransactionWrites f).
      \<exists>old. idToRecordOf [st] (idFromFilename (filename x)) = Some old \<and>
            BlobHash old = hashString (blobHash x)"
  proof -
    have one: "idToRecordOf [st] (idFromFilename (filename f)) = Some st"
      unfolding idf by (simp add: idToRecordOf_def st_def toyRecord_def)
    have bh: "BlobHash st = hashString (blobHash f)"
      by (simp add: st_def f_def toyFile_def hashString_def hexDigit_def toyRecord_def)
    from one bh show ?thesis by auto
  qed
  have com: "fault w OpCommit = None" by (simp add: assms(2))
  show ?thesis
    using updateBatch_all_skipped[OF ne get skip com, of toyLib toyUpdater] unfolding f_def .
qed

lemma toy_batches:
  "batchesOf manyFiles =
     [replicate maxTransactionWrites (toyFile ''CVE-2021-0001.json'' [1]),
      [toyFile ''CVE-2020-9283.json'' [2]]]"
proof -
  have n: "(length manyFiles + maxTransactionWrites - 1) div maxTransactionWrites = Suc (Suc 0)"
    by (simp add: manyFiles_def maxTransactionWrites_def)
  have t: "take maxTransactionWrites [g] = [g]" for g :: repoFile
    by (simp add: maxTransactionWrites_def)
  show ?thesis
    unfolding batchesOf_def n by (simp add: manyFiles_def t)
qed

theorem updateDirectory_protocol_witness:
  "manyFiles \<noteq> [] \<and>
   fault storedWorld (OpGetDirectoryHash ''2021/0xxx'') = None \<and>
   dirHashes storedWorld ''2021/0xxx'' \<noteq> ''07'' \<and>
   fault storedWorld (OpSetDirectoryHash ''2021/0xxx'' ''in progress'') = None \<and>
   batchesOf manyFiles =
     [replicate maxTransactionWrites (toyFile ''CVE-2021-0001.json'' [1]),
      [toyFile ''CVE-2020-9283.json'' [2]]] \<and>
   fst (updateDirectory toyLib toyUpdater manyFiles storedWorld)
     = Inr \<lparr>numProcessed = 501, numAdded = 1, numModified = 0\<rparr> \<and>
   dirHashes (snd (updateDirectory toyLib toyUpdater manyFiles storedWorld)) ''2021/0xxx'' = ''07'' \<and>
   numTransactions (snd (updateDirectory toyLib toyUpdater manyFiles storedWorld)) = 2 \<and>
   updateDirectory toyLib toyUpdater manyFiles
     (snd (updateDirectory toyLib toyUpdater manyFiles storedWorld))
   = (Inr \<lparr>numProcessed = 0, numAdded = 0, numModified = 0\<rparr>,
      snd (updateDirectory toyLib toyUpdater manyFiles storedWorld)) \<and>
   fst (updateDirectory toyLib toyUpdater [toyFile ''CVE-2021-0001.json'' [1]] unavailableWorld)
     = Inl (ErrExternal ''unavailable'') \<and>
   dirHashes (snd (updateDirectory toyLib toyUpdater [toyFile ''CVE-2021-0001.json'' [1]] unavailableWorld))
     ''2021/0xxx'' = ''in progress'' \<and>
   cveRecords (snd (updateDirectory toyLib toyUpdater [toyFile ''CVE-2021-0001.json'' [1]] unavailableWorld))
     = []"
proof -
  define w where "w = storedWorld"
  define w' where "w' = snd (updateDirectory toyLib toyUpdater manyFiles w)"
  let ?f = "toyFile ''CVE-2021-0001.json'' [1]" and ?g = "toyFile ''CVE-2020-9283.json'' [2]"
  have ne: "manyFiles \<noteq> []" by (simp add: manyFiles_def)
  have first: "manyFiles ! 0 = ?f"
    by (simp add: manyFiles_def nth_append maxTransactionWrites_def)
  have dir: "dirPath (manyFiles ! 0) = ''2021/0xxx''"
    and h: "hashString (treeHash (manyFiles ! 0)) = ''07''"
    unfolding first by (simp_all add: toyFile_def hashString_def hexDigit_def)
  have len: "length manyFiles = 501" by (simp add: manyFiles_def maxTransactionWrites_def)
  have g: "fault w (OpGetDirectoryHash ''2021/0xxx'') = None"
    and d: "dirHashes w ''2021/0xxx'' \<noteq> ''07''"
    and s: "fault w (OpSetDirectoryHash ''2021/0xxx'' ''in progress'') = None"
    by (simp_all add: w_def storedWorld_def toyWorld_def)
  note th = updateDirectory_protocol[OF ne, where w = w and lib = toyLib and u = toyUpdater,
      unfolded dir h]
  note changed = th[THEN conjunct2, THEN conjunct2, THEN conjunct2, THEN conjunct1, THEN mp,
      OF conjI[OF g conjI[OF d s]]]

  \<comment> \<open>the two batches\<close>
  let ?w1 = "w\<lparr>dirHashes := (dirHashes w)(''2021/0xxx'' := ''in progress'')\<rparr>"
  have u1: "updateBatch toyLib toyUpdater (replicate maxTransactionWrites ?f) ?w1
      = (Inr (0, 0), ?w1\<lparr>numTransactions := numTransactions ?w1 + 1\<rparr>)"
    by (rule toy_skipped_batch) (simp_all add: w_def storedWorld_def toyWorld_def)
  let ?w2 = "?w1\<lparr>numTransactions := numTransactions ?w1 + 1\<rparr>"
  have "fst (updateBatch toyLib toyUpdater [?g] ?w2) = Inr (1, 0)"
    by (simp add: w_def storedWorld_def toy_dir_eval toy_eval Let_def)
  then obtain w3 where u2: "updateBatch toyLib toyUpdater [?g] ?w2 = (Inr (1, 0), w3)"
    by (metis prod.collapse)
  have rb: "runBatches toyLib toyUpdater (batchesOf manyFiles) ?w1 = (Inr [(0, 0), (1, 0)], w3)"
    unfolding toy_batches by (simp only: runBatches.simps u1 u2 prod.case sum.case)
  have f3: "fault w3 (OpSetDirectoryHash ''2021/0xxx'' ''07'') = None"
    using updateBatch_frame[OF u2] by (simp add: w_def storedWorld_def toyWorld_def)
  have ok: "fst (updateDirectory toyLib toyUpdater manyFiles w)
      = Inr \<lparr>numProcessed = 501, numAdded = 1, numModified = 0\<rparr>"
    unfolding changed[THEN conjunct1] rb by (simp add: SetDirectoryHash_def f3 len)
  note fin = changed[THEN conjunct2, THEN conjunct2, THEN conjunct2, rule_format, OF ok]
  from fin have stored: "dirHashes w' ''2021/0xxx'' = ''07''" unfolding w'_def by blast
  from fin have "numTransactions w' = numTransactions w + length (batchesOf manyFiles)"
    unfolding w'_def by blast
  then have tx: "numTransactions w' = 2"
    unfolding toy_batches by (simp add: w_def storedWorld_def toyWorld_def)

  \<comment> \<open>the next call skips the directory\<close>
  have "updateDirectory toyLib toyUpdater manyFiles w
      = (fst (updateDirectory toyLib toyUpdater manyFiles w), w')"
    unfolding w'_def by simp
  from updateDirectory_changed(1)[OF ne, of w toyLib toyUpdater, unfolded dir h, OF g d s this]
  have "fault w' = fault w" .
  then have g': "fault w' (OpGetDirectoryHash ''2021/0xxx'') = None" using g by simp
  note second = updateDirectory_protocol[OF ne, where w = w' and lib = toyLib and u = toyUpdater,
      unfolded dir h, THEN conjunct1, THEN mp, OF conjI[OF g' stored]]

  \<comment> \<open>a store that cannot commit\<close>
  define fs where "fs = [?f]"
  have ne1: "fs \<noteq> []" by (simp add: fs_def)
  have dir1: "dirPath (fs ! 0) = ''2021/0xxx''" and h1: "hashString (treeHash (fs ! 0)) = ''07''"
    by (simp_all add: fs_def toyFile_def hashString_def hexDigit_def)
  have gf: "fault unavailableWorld (OpGetDirectoryHash ''2021/0xxx'') = None"
    and df: "dirHashes unavailableWorld ''2021/0xxx'' \<noteq> ''07''"
    and sf: "fault unavailableWorld (OpSetDirectoryHash ''2021/0xxx'' ''in progress'') = None"
    by (simp_all add: unavailableWorld_def toyWorld_def)
  have failed: "fst (updateDirectory toyLib toyUpdater fs unavailableWorld)
      = Inl (ErrExternal ''unavailable'')"
    and rolled: "cveRecords (snd (updateDirectory toyLib toyUpdater fs unavailableWorld)) = []"
    unfolding fs_def by (simp_all add: unavailableWorld_def toy_dir_eval toy_eval Let_def)
  note third = updateDirectory_protocol[OF ne1, where w = unavailableWorld and lib = toyLib
      and u = toyUpdater, unfolded dir1 h1, THEN conjunct2, THEN conjunct2, THEN conjunct2,
      THEN conjunct1, THEN mp, OF conjI[OF gf conjI[OF df sf]], THEN conjunct2, THEN conjunct2,
      THEN conjunct1, rule_format, OF failed, THEN conjunct1]
  from ne g d s toy_batches ok stored tx second failed third rolled show ?thesis
    unfolding w'_def w_def fs_def by simp
qed

section \<open>Properties of issue creation\<close>















end
